theory Spec2Isabelle
  imports Main "HOL-Library.Char_ord" "HOL-Library.List_Lexorder" "HOL-Library.Multiset"
begin

section \<open>Python values used by \<open>twinTrim/flags.py\<close>\<close>

text \<open>
  The command \<open>cli\<close> of \<open>twinTrim/flags.py\<close> is embedded as a function over an explicit
  world. Paths and messages are strings. An exception is a value; \<open>BaseException\<close> stands
  for an exception outside the class \<open>Exception\<close> (\<open>KeyboardInterrupt\<close>, \<open>SystemExit\<close>),
  which the clause \<open>except Exception\<close> does not catch. The string a constructor carries is
  the text of \<open>str(e)\<close>.
\<close>

type_synonym path = string

datatype exc =
    ValueError string
  | IndexError string
  | OSError string
  | Exception string
  | BaseException string

fun is_Exception :: "exc \<Rightarrow> bool" where
  "is_Exception (BaseException m) = False"
| "is_Exception e = True"

fun str_exc :: "exc \<Rightarrow> string" where
  "str_exc (ValueError m) = m"
| "str_exc (IndexError m) = m"
| "str_exc (OSError m) = m"
| "str_exc (Exception m) = m"
| "str_exc (BaseException m) = m"

subsection \<open>\<open>str\<close> and \<open>int\<close> on decimal numerals\<close>

definition digit_char :: "nat \<Rightarrow> char" where
  "digit_char d = char_of (48 + d)"

text \<open>\<open>str(n)\<close> for a non-negative integer: its decimal digits, no leading zero.\<close>

function show_nat :: "nat \<Rightarrow> string" where
  "show_nat n = (if n < 10 then [digit_char n] else show_nat (n div 10) @ [digit_char (n mod 10)])"
  by pat_completeness auto
termination
  by (relation "measure (\<lambda>n. n)") auto

declare show_nat.simps [simp del]

definition is_digit :: "char \<Rightarrow> bool" where
  "is_digit c = (48 \<le> (of_char c :: nat) \<and> (of_char c :: nat) \<le> 57)"

definition digit_val :: "char \<Rightarrow> nat" where
  "digit_val c = of_char c - 48"

text \<open>
  The whitespace \<open>int\<close> strips from both ends of its argument: the ASCII characters for
  which \<open>str.isspace\<close> holds (tab, line feed, vertical tab, form feed, carriage return, the
  four separators \<open>0x1c\<close> to \<open>0x1f\<close>, and space).
\<close>

definition is_space :: "char \<Rightarrow> bool" where
  "is_space c = ((of_char c :: nat) \<in> {9, 10, 11, 12, 13, 28, 29, 30, 31, 32})"

definition strip :: "string \<Rightarrow> string" where
  "strip s = rev (dropWhile is_space (rev (dropWhile is_space s)))"

text \<open>
  The digits of an \<open>int\<close> literal: groups of digits, one underscore allowed between two
  digits. The flag says whether the previous character was a digit.
\<close>

fun parse_digits :: "nat \<Rightarrow> bool \<Rightarrow> string \<Rightarrow> nat option" where
  "parse_digits acc ok [] = (if ok then Some acc else None)"
| "parse_digits acc ok (c # cs) =
     (if is_digit c then parse_digits (10 * acc + digit_val c) True cs
      else if c = CHR ''_'' \<and> ok then parse_digits acc False cs
      else None)"

text \<open>\<open>int(s)\<close> on a string, base 10; \<open>ValueError\<close> on anything that is not a literal.\<close>

definition py_int :: "string \<Rightarrow> exc + int" where
  "py_int s =
     (case strip s of
        [] \<Rightarrow> Inl (ValueError s)
      | c # cs \<Rightarrow>
          (if c = CHR ''-'' then
             (case parse_digits 0 False cs of None \<Rightarrow> Inl (ValueError s) | Some n \<Rightarrow> Inr (- int n))
           else if c = CHR ''+'' then
             (case parse_digits 0 False cs of None \<Rightarrow> Inl (ValueError s) | Some n \<Rightarrow> Inr (int n))
           else
             (case parse_digits 0 False (c # cs) of None \<Rightarrow> Inl (ValueError s) | Some n \<Rightarrow> Inr (int n))))"

subsection \<open>\<open>str.split\<close> and list indexing\<close>

text \<open>\<open>s.split(sep)\<close> for a separator of one character: never the empty list.\<close>

fun split_char :: "char \<Rightarrow> string \<Rightarrow> string list" where
  "split_char sep [] = [[]]"
| "split_char sep (c # cs) =
     (if c = sep then [] # split_char sep cs
      else (case split_char sep cs of
              [] \<Rightarrow> [[c]]
            | p # ps \<Rightarrow> (c # p) # ps))"

text \<open>\<open>xs[i]\<close>: a negative index counts from the end, an index out of range raises.\<close>

definition py_index :: "'a list \<Rightarrow> int \<Rightarrow> exc + 'a" where
  "py_index xs i =
     (if 0 \<le> i \<and> i < int (length xs) then Inr (xs ! nat i)
      else if i < 0 \<and> - int (length xs) \<le> i then Inr (xs ! nat (int (length xs) + i))
      else Inl (IndexError ''list index out of range''))"

section \<open>The checkbox labels of the interactive mode\<close>

text \<open>
  Line 98: \<open>f"{idx + 1}) {duplicate} (Size: {os.path.getsize(duplicate)} bytes)"\<close>.
\<close>

definition file_option :: "nat \<Rightarrow> path \<Rightarrow> nat \<Rightarrow> string" where
  "file_option idx duplicate sz =
     show_nat (idx + 1) @ '') '' @ duplicate @ '' (Size: '' @ show_nat sz @ '' bytes)''"

text \<open>
  Lines 97 to 99: the list comprehension over \<open>enumerate(duplicates_list)\<close>, from index
  \<open>idx\<close> on. \<open>getsize_now\<close> is \<open>os.path.getsize\<close> on the file system of the moment; the
  first path whose size cannot be read raises.
\<close>

fun file_options :: "(path \<Rightarrow> exc + nat) \<Rightarrow> nat \<Rightarrow> path list \<Rightarrow> exc + string list" where
  "file_options getsize_now idx [] = Inr []"
| "file_options getsize_now idx (duplicate # rest) =
     (case getsize_now duplicate of
        Inl e \<Rightarrow> Inl e
      | Inr sz \<Rightarrow>
          (case file_options getsize_now (Suc idx) rest of
             Inl e \<Rightarrow> Inl e
           | Inr labels \<Rightarrow> Inr (file_option idx duplicate sz # labels)))"

text \<open>
  Line 119: \<open>duplicates_list[int(option.split(")")[0]) - 1]\<close>.
\<close>

definition selected_file :: "path list \<Rightarrow> string \<Rightarrow> exc + path" where
  "selected_file duplicates_list option =
     (case split_char CHR '')'' option of
        [] \<Rightarrow> Inl (IndexError ''list index out of range'')
      | h # _ \<Rightarrow>
          (case py_int h of
             Inl e \<Rightarrow> Inl e
           | Inr i \<Rightarrow> py_index duplicates_list (i - 1)))"

text \<open>
  Line 119, the whole comprehension: every option is decoded before any file is removed, and
  the first option that fails to decode raises.
\<close>

fun files_to_delete :: "path list \<Rightarrow> string list \<Rightarrow> exc + path list" where
  "files_to_delete duplicates_list [] = Inr []"
| "files_to_delete duplicates_list (option # rest) =
     (case selected_file duplicates_list option of
        Inl e \<Rightarrow> Inl e
      | Inr p \<Rightarrow>
          (case files_to_delete duplicates_list rest of
             Inl e \<Rightarrow> Inl e
           | Inr ps \<Rightarrow> Inr (p # ps)))"

section \<open>The collaborators of \<open>cli\<close>\<close>

text \<open>
  Modelled from the spec: the class \<open>FileFilter\<close> of \<open>twinTrim/dataStructures/fileFilter.py\<close>
  is not among the sources. The record has the four fields of the spec's data model, and
  each setter \<open>cli\<close> calls stores its argument in the field it is named after.
\<close>

record FileFilter =
  minSize :: nat
  maxSize :: nat
  typePattern :: string
  excludeNames :: "string set"

definition setMinFileSize :: "nat \<Rightarrow> FileFilter \<Rightarrow> FileFilter" where
  "setMinFileSize n f = f\<lparr>minSize := n\<rparr>"

definition setMaxFileSize :: "nat \<Rightarrow> FileFilter \<Rightarrow> FileFilter" where
  "setMaxFileSize n f = f\<lparr>maxSize := n\<rparr>"

definition setFileType :: "string \<Rightarrow> FileFilter \<Rightarrow> FileFilter" where
  "setFileType t f = f\<lparr>typePattern := t\<rparr>"

definition addFileExclude :: "string \<Rightarrow> FileFilter \<Rightarrow> FileFilter" where
  "addFileExclude file_name f = f\<lparr>excludeNames := insert file_name (excludeNames f)\<rparr>"

text \<open>The parameters \<open>click\<close> passes to \<open>cli\<close> (lines 24 to 34).\<close>

record options =
  directory :: path
  all_flag :: bool
  min_size :: string
  max_size :: string
  file_type :: string
  exclude :: "string list"
  label_color :: string
  bar_color :: string
  preview :: bool
  export :: "string option"

text \<open>The dictionary \<open>inquirer.prompt\<close> returns for the two questions of lines 101 to 115.\<close>

record answers =
  files :: "string list"
  confirm :: bool

text \<open>
  What \<open>cli\<close> does to the outside, in the order it does it: log records, lines echoed to
  the terminal (text and colour), the calls of the detection functions with their arguments,
  the writes to the export file, each prompt with its choices and the answer it got, and
  each call of \<open>handle_and_remove\<close>.
\<close>

datatype event =
    Log_info string
  | Log_error string
  | Echo string string
  | Call_handleAllFlag path FileFilter string string
  | Call_find_duplicates path FileFilter string string
  | Open_w path
  | Write_file path string
  | Close_file path
  | Prompt "string list" "answers option"
  | Remove path

text \<open>
  The functions \<open>cli\<close> imports and the library calls that touch the outside are parameters;
  \<open>'w\<close> is the state of the outside world (file system, terminal, clock). The calls that
  may raise return a sum. \<open>parse_size\<close>, \<open>handleAllFlag\<close>, \<open>find_duplicates\<close> and
  \<open>handle_and_remove\<close> are functions of this repository that are not among the sources;
  \<open>new_FileFilter\<close> is the value of \<open>FileFilter()\<close>; \<open>getsize\<close> is \<open>os.path.getsize\<close>;
  \<open>open_w\<close>, \<open>write_file\<close> and \<open>close_file\<close> are \<open>open(export, 'w')\<close>, \<open>file.write\<close>
  and the end of the \<open>with\<close> block; \<open>prompt\<close> is \<open>inquirer.prompt\<close>, which returns \<open>None\<close>
  when the user cancels; \<open>format_mb\<close> is the text of \<open>total_size / (1024 * 1024)\<close> under
  \<open>.2f\<close> and \<open>time_taken\<close> the text of the seconds between two readings of the clock under
  \<open>.2f\<close> (floating point, not modelled). Logging, echoing, writing to the open file, the
  prompt and \<open>handle_and_remove\<close> are taken not to raise.
\<close>

record 'w env =
  parse_size :: "string \<Rightarrow> exc + nat"
  new_FileFilter :: FileFilter
  handleAllFlag :: "path \<Rightarrow> FileFilter \<Rightarrow> string \<Rightarrow> string \<Rightarrow> 'w \<Rightarrow> exc option \<times> 'w"
  find_duplicates :: "path \<Rightarrow> FileFilter \<Rightarrow> string \<Rightarrow> string \<Rightarrow> 'w \<Rightarrow> (exc + (path \<times> path) list) \<times> 'w"
  getsize :: "path \<Rightarrow> 'w \<Rightarrow> exc + nat"
  open_w :: "path \<Rightarrow> 'w \<Rightarrow> exc + 'w"
  write_file :: "path \<Rightarrow> string \<Rightarrow> 'w \<Rightarrow> 'w"
  close_file :: "path \<Rightarrow> 'w \<Rightarrow> 'w"
  prompt :: "string list \<Rightarrow> 'w \<Rightarrow> answers option \<times> 'w"
  handle_and_remove :: "path \<Rightarrow> 'w \<Rightarrow> 'w"
  format_mb :: "nat \<Rightarrow> string"
  time_taken :: "'w \<Rightarrow> 'w \<Rightarrow> string"

text \<open>
  A run, or a part of one: the events in order, the world it leaves, and whether it
  completed or raised.
\<close>

datatype outcome = Completed | Raised exc

type_synonym 'w run = "event list \<times> 'w \<times> outcome"

definition and_then :: "'w run \<Rightarrow> ('w \<Rightarrow> 'w run) \<Rightarrow> 'w run" where
  "and_then r k =
     (case r of
        (t, w, Raised e) \<Rightarrow> (t, w, Raised e)
      | (t, w, Completed) \<Rightarrow> (case k w of (t', w', r') \<Rightarrow> (t @ t', w', r')))"

definition INFO_COLOR :: string where "INFO_COLOR = ''blue''"
definition WARNING_COLOR :: string where "WARNING_COLOR = ''yellow''"
definition SUCCESS_COLOR :: string where "SUCCESS_COLOR = ''green''"
definition ERROR_COLOR :: string where "ERROR_COLOR = ''red''"

section \<open>\<open>cli\<close>, part by part\<close>

text \<open>Lines 37 to 42: the filter, from the options.\<close>

definition make_filter :: "'w env \<Rightarrow> options \<Rightarrow> exc + FileFilter" where
  "make_filter env opts =
     (case parse_size env (min_size opts) of
        Inl e \<Rightarrow> Inl e
      | Inr mn \<Rightarrow>
          (case parse_size env (max_size opts) of
             Inl e \<Rightarrow> Inl e
           | Inr mx \<Rightarrow>
               Inr (foldl (\<lambda>file_filter file_name. addFileExclude file_name file_filter)
                      (setFileType (file_type opts)
                         (setMaxFileSize mx (setMinFileSize mn (new_FileFilter env))))
                      (exclude opts))))"

text \<open>
  Lines 67 to 69: \<open>duplicates_dict\<close>, a \<open>defaultdict(list)\<close>. A dictionary keeps its keys in
  the order of their first insertion, so it is a list of keys with their values;
  \<open>dict_append d k v\<close> is \<open>d[k].append(v)\<close>.
\<close>

fun dict_append :: "('k \<times> 'v list) list \<Rightarrow> 'k \<Rightarrow> 'v \<Rightarrow> ('k \<times> 'v list) list" where
  "dict_append [] k v = [(k, [v])]"
| "dict_append ((k', vs) # d) k v =
     (if k' = k then (k', vs @ [v]) # d
      else (k', vs) # dict_append d k v)"

definition duplicates_dict :: "(path \<times> path) list \<Rightarrow> (path \<times> path list) list" where
  "duplicates_dict duplicates =
     foldl (\<lambda>d (original, duplicate). dict_append d original duplicate) [] duplicates"

text \<open>
  Line 71: the sizes summed into \<open>total_size\<close>, read in the order of the generator; the
  first size that cannot be read raises.
\<close>

fun getsizes :: "(path \<Rightarrow> exc + nat) \<Rightarrow> path list \<Rightarrow> exc + nat list" where
  "getsizes getsize_now [] = Inr []"
| "getsizes getsize_now (duplicate # rest) =
     (case getsize_now duplicate of
        Inl e \<Rightarrow> Inl e
      | Inr sz \<Rightarrow>
          (case getsizes getsize_now rest of
             Inl e \<Rightarrow> Inl e
           | Inr szs \<Rightarrow> Inr (sz # szs)))"

definition total_size :: "'w env \<Rightarrow> (path \<times> path list) list \<Rightarrow> 'w \<Rightarrow> exc + nat" where
  "total_size env dd w =
     (case getsizes (\<lambda>p. getsize env p w) (concat (map snd dd)) of
        Inl e \<Rightarrow> Inl e
      | Inr szs \<Rightarrow> Inr (sum_list szs))"

text \<open>Lines 76 to 81: the body of the \<open>with\<close> block, the inner loop first.\<close>

fun export_duplicates :: "'w env \<Rightarrow> path \<Rightarrow> path list \<Rightarrow> 'w \<Rightarrow> 'w run" where
  "export_duplicates env out [] w = ([], w, Completed)"
| "export_duplicates env out (duplicate # rest) w =
     (case getsize env duplicate w of
        Inl e \<Rightarrow> ([], w, Raised e)
      | Inr sz \<Rightarrow>
          (let line = ''  Duplicate: '' @ duplicate @ '' (Size: '' @ show_nat sz @ '' bytes)'' @ [CHR 0x0A]
           in and_then ([Write_file out line], write_file env out line w, Completed)
                (export_duplicates env out rest)))"

fun export_sets :: "'w env \<Rightarrow> path \<Rightarrow> (path \<times> path list) list \<Rightarrow> 'w \<Rightarrow> 'w run" where
  "export_sets env out [] w = ([], w, Completed)"
| "export_sets env out ((original, duplicates_list) # rest) w =
     (let line = ''Original file: '' @ original @ [CHR 0x0A]
      in and_then ([Write_file out line], write_file env out line w, Completed)
           (\<lambda>w. and_then (export_duplicates env out duplicates_list w) (export_sets env out rest)))"

text \<open>
  Lines 75 to 82: \<open>if export\<close> holds for a string that is not empty. The \<open>with\<close> block
  closes the file also when its body raises.
\<close>

definition export_total_line :: "'w env \<Rightarrow> nat \<Rightarrow> string" where
  "export_total_line env tot =
     [CHR 0x0A] @ ''Total potential space saved: '' @ format_mb env tot @ '' MB'' @ [CHR 0x0A]"

definition export_report :: "'w env \<Rightarrow> string option \<Rightarrow> (path \<times> path list) list \<Rightarrow> nat \<Rightarrow> 'w \<Rightarrow> 'w run" where
  "export_report env exp dd tot w =
     (case exp of
        None \<Rightarrow> ([], w, Completed)
      | Some out \<Rightarrow>
          if out = [] then ([], w, Completed)
          else
            (case open_w env out w of
               Inl e \<Rightarrow> ([], w, Raised e)
             | Inr w1 \<Rightarrow>
                 (case export_sets env out dd w1 of
                    (t, w2, Raised e) \<Rightarrow> ([Open_w out] @ t @ [Close_file out], close_file env out w2, Raised e)
                  | (t, w2, Completed) \<Rightarrow>
                      (let line = export_total_line env tot;
                           w3 = close_file env out (write_file env out line w2)
                       in ([Open_w out] @ t @ [Write_file out line, Close_file out,
                             Echo (''Duplicate details exported to '' @ out) SUCCESS_COLOR],
                           w3, Completed)))))"

text \<open>Lines 86 to 88: the listing of the preview mode.\<close>

definition preview_line :: "path \<Rightarrow> nat \<Rightarrow> event" where
  "preview_line duplicate sz =
     Echo (''Duplicate: '' @ duplicate @ '' (Size: '' @ show_nat sz @ '' bytes)'') INFO_COLOR"

fun preview_duplicates :: "'w env \<Rightarrow> path list \<Rightarrow> 'w \<Rightarrow> 'w run" where
  "preview_duplicates env [] w = ([], w, Completed)"
| "preview_duplicates env (duplicate # rest) w =
     (case getsize env duplicate w of
        Inl e \<Rightarrow> ([], w, Raised e)
      | Inr sz \<Rightarrow>
          and_then ([preview_line duplicate sz], w, Completed) (preview_duplicates env rest))"

fun preview_sets :: "'w env \<Rightarrow> (path \<times> path list) list \<Rightarrow> 'w \<Rightarrow> 'w run" where
  "preview_sets env [] w = ([], w, Completed)"
| "preview_sets env ((original, duplicates_list) # rest) w =
     and_then (preview_duplicates env duplicates_list w) (preview_sets env rest)"

text \<open>Lines 120 and 121: the files are removed one after the other.\<close>

fun remove_files :: "'w env \<Rightarrow> path list \<Rightarrow> 'w \<Rightarrow> 'w run" where
  "remove_files env [] w = ([], w, Completed)"
| "remove_files env (file_path # rest) w =
     and_then ([Remove file_path], handle_and_remove env file_path w, Completed)
       (remove_files env rest)"

text \<open>Lines 92 to 95: what is echoed and logged for a set before its prompt.\<close>

definition set_header :: "path \<Rightarrow> path list \<Rightarrow> event list" where
  "set_header original duplicates_list =
     [Echo (''Original file: '' @ [CHR 0x22] @ original @ [CHR 0x22]) INFO_COLOR,
      Echo (''Number of duplicate files found: '' @ show_nat (length duplicates_list)) INFO_COLOR,
      Log_info (''Original file: '' @ [CHR 0x22] @ original @ [CHR 0x22] @ '' with ''
                  @ show_nat (length duplicates_list) @ '' duplicates''),
      Echo ''They are:'' INFO_COLOR]"

text \<open>
  Lines 117 to 123: what \<open>cli\<close> does with the answer. \<open>answers and answers['confirm']\<close>
  holds for a dictionary (never empty here) whose \<open>confirm\<close> is true.
\<close>

definition act_on_answer :: "'w env \<Rightarrow> path list \<Rightarrow> answers option \<Rightarrow> 'w \<Rightarrow> 'w run" where
  "act_on_answer env duplicates_list ans w =
     (case ans of
        None \<Rightarrow> ([Echo ''File deletion canceled.'' WARNING_COLOR], w, Completed)
      | Some a \<Rightarrow>
          if confirm a then
            (case files_to_delete duplicates_list (files a) of
               Inl e \<Rightarrow> ([], w, Raised e)
             | Inr ps \<Rightarrow> remove_files env ps w)
          else ([Echo ''File deletion canceled.'' WARNING_COLOR], w, Completed))"

text \<open>Lines 92 to 123: the body of the loop of the interactive mode, for one set.\<close>

definition interactive_set :: "'w env \<Rightarrow> path \<times> path list \<Rightarrow> 'w \<Rightarrow> 'w run" where
  "interactive_set env s w =
     (case s of (original, duplicates_list) \<Rightarrow>
        and_then (set_header original duplicates_list, w, Completed)
          (\<lambda>w.
             case file_options (\<lambda>p. getsize env p w) 0 duplicates_list of
               Inl e \<Rightarrow> ([], w, Raised e)
             | Inr labels \<Rightarrow>
                 (case prompt env labels w of
                    (ans, w1) \<Rightarrow>
                      and_then ([Prompt labels ans], w1, Completed)
                        (act_on_answer env duplicates_list ans))))"

fun interactive_sets :: "'w env \<Rightarrow> (path \<times> path list) list \<Rightarrow> 'w \<Rightarrow> 'w run" where
  "interactive_sets env [] w = ([], w, Completed)"
| "interactive_sets env (s # rest) w =
     and_then (interactive_set env s w) (interactive_sets env rest)"

text \<open>
  Lines 84 to 128: after the export, the preview mode lists the duplicates and returns;
  otherwise the sets are gone through and the time taken is reported. \<open>w0\<close> is the world
  in which the clock was read at line 49.
\<close>

definition after_export :: "'w env \<Rightarrow> options \<Rightarrow> 'w \<Rightarrow> (path \<times> path list) list \<Rightarrow> 'w \<Rightarrow> 'w run" where
  "after_export env opts w0 dd w =
     (if preview opts then
        and_then
          ([Echo ''Preview mode active - No files will be deleted.'' SUCCESS_COLOR], w, Completed)
          (preview_sets env dd)
      else
        and_then (interactive_sets env dd w)
          (\<lambda>w.
             ([Echo (''Time taken: '' @ time_taken env w0 w @ '' seconds.'') SUCCESS_COLOR,
               Log_info (''Total time taken: '' @ time_taken env w0 w @ '' seconds.'')],
              w, Completed)))"

text \<open>Lines 64 to 128: what \<open>cli\<close> does with a list of duplicates that is not empty.\<close>

definition report :: "'w env \<Rightarrow> options \<Rightarrow> 'w \<Rightarrow> (path \<times> path) list \<Rightarrow> 'w \<Rightarrow> 'w run" where
  "report env opts w0 duplicates w =
     and_then
       ([Echo (''Found '' @ show_nat (length duplicates) @ '' sets of duplicate files:'') WARNING_COLOR,
         Log_info (''Found '' @ show_nat (length duplicates) @ '' sets of duplicate files'')],
        w, Completed)
       (\<lambda>w.
          case total_size env (duplicates_dict duplicates) w of
            Inl e \<Rightarrow> ([], w, Raised e)
          | Inr tot \<Rightarrow>
              and_then
                ([Echo (''Total potential space saved: '' @ format_mb env tot @ '' MB'') SUCCESS_COLOR,
                  Log_info (''Total potential space saved: '' @ format_mb env tot @ '' MB'')],
                 w, Completed)
                (\<lambda>w.
                   and_then (export_report env (export opts) (duplicates_dict duplicates) tot w)
                     (after_export env opts w0 (duplicates_dict duplicates))))"

text \<open>
  Lines 54 to 128: what \<open>cli\<close> does with the result \<open>r\<close> of \<open>find_duplicates\<close>. An
  exception of the class \<open>Exception\<close> is logged and reported, any other goes on to the
  caller; an empty list is reported as such.
\<close>

definition after_detection ::
  "'w env \<Rightarrow> options \<Rightarrow> 'w \<Rightarrow> exc + (path \<times> path) list \<Rightarrow> 'w \<Rightarrow> 'w run" where
  "after_detection env opts w0 r w =
     (case r of
        Inl e \<Rightarrow>
          if is_Exception e then
            ([Log_error (''Error finding duplicates: '' @ str_exc e),
              Echo ''Error while finding duplicates. Check the log for details.'' ERROR_COLOR],
             w, Completed)
          else ([], w, Raised e)
      | Inr duplicates \<Rightarrow>
          if duplicates = [] then
            ([Echo ''No duplicate files found.'' SUCCESS_COLOR,
              Log_info ''No duplicate files found.''],
             w, Completed)
          else report env opts w0 duplicates w)"

text \<open>Lines 34 to 128: the command.\<close>

definition cli :: "'w env \<Rightarrow> options \<Rightarrow> 'w \<Rightarrow> 'w run" where
  "cli env opts w =
     (case make_filter env opts of
        Inl e \<Rightarrow> ([], w, Raised e)
      | Inr file_filter \<Rightarrow>
          if all_flag opts then
            (case handleAllFlag env (directory opts) file_filter (label_color opts) (bar_color opts) w of
               (r, w1) \<Rightarrow>
                 ([Log_info ''Deleting all duplicate files without asking.'',
                   Call_handleAllFlag (directory opts) file_filter (label_color opts) (bar_color opts)],
                  w1,
                  case r of None \<Rightarrow> Completed | Some e \<Rightarrow> Raised e))
          else
            (case find_duplicates env (directory opts) file_filter (label_color opts) (bar_color opts) w of
               (r, w1) \<Rightarrow>
                 and_then
                   ([Log_info (''Searching for duplicates in directory: '' @ directory opts),
                     Call_find_duplicates (directory opts) file_filter (label_color opts) (bar_color opts)],
                    w1, Completed)
                   (after_detection env opts w r)))"

section \<open>The detection engine\<close>

text \<open>
  Modelled from the spec: the engine behind \<open>find_duplicates\<close> (the modules
  \<open>twinTrim.flagController\<close>, \<open>twinTrim.utils\<close> and \<open>twinTrim.dataStructures\<close>) is not among
  the sources. The definitions of this section follow sections 3 to 7 of the spec: the
  filter predicate, the scanner, the size grouper, the parallel hasher and the duplicate
  grouper, and the four kinds of error.
\<close>

datatype ErrorKind = InvalidRoot | TraversalWarning | HashFailure | PoolExhaustion

text \<open>
  A directory tree. A file has a name, the size its \<open>stat\<close> gives (for a symbolic link to a
  regular file, the size of the link) and what reading it gives when it is hashed: its
  bytes, or nothing when the read fails. A directory has a name, is readable or not, and
  has entries. A symbolic link to a directory is not followed.
\<close>

datatype node =
    File string nat "string option"
  | Dir string bool "node list"
  | Dir_link string

fun node_name :: "node \<Rightarrow> string" where
  "node_name (File name sz content) = name"
| "node_name (Dir name readable entries) = name"
| "node_name (Dir_link name) = name"

text \<open>
  What the spec leaves to the platform: how a type pattern is matched against a name
  (\<open>type_matches pattern name\<close>), the digest of a sequence of bytes, whether a pool of a
  given number of workers can be created, and the order in which a pool of that many
  workers delivers the results of its tasks.
\<close>

record platform =
  type_matches :: "string \<Rightarrow> string \<Rightarrow> bool"
  digest :: "string \<Rightarrow> string"
  can_create_pool :: "nat \<Rightarrow> bool"
  deliver :: "nat \<Rightarrow> nat list \<Rightarrow> nat list"

record Candidate =
  cpath :: path
  csize :: nat

record HashResult =
  hpath :: path
  hdigest :: string
  herror :: "ErrorKind option"

record DuplicateSet =
  the_original :: path
  the_duplicates :: "path list"

text \<open>
  Section 4.1: size within the bounds, name not excluded, extension matching the pattern,
  checked in this order, false at the first check that fails.
\<close>

definition matches :: "platform \<Rightarrow> FileFilter \<Rightarrow> path \<Rightarrow> nat \<Rightarrow> string \<Rightarrow> bool" where
  "matches pf f p sz name =
     (if \<not> (minSize f \<le> sz \<and> sz \<le> maxSize f) then False
      else if name \<in> excludeNames f then False
      else type_matches pf (typePattern f) name)"

text \<open>
  Section 4.2: the scan of the node at path \<open>p\<close>, the entries of a directory in the
  lexicographic order of their names. It gives the warnings and the candidates, each with
  what reading its file will give. An unreadable directory is a warning and is skipped.
\<close>

fun scan :: "platform \<Rightarrow> FileFilter \<Rightarrow> path \<Rightarrow> node
    \<Rightarrow> (path \<times> ErrorKind) list \<times> (Candidate \<times> string option) list" where
  "scan pf f p (File name sz content) =
     ([], if matches pf f p sz name then [(\<lparr>cpath = p, csize = sz\<rparr>, content)] else [])"
| "scan pf f p (Dir_link name) = ([], [])"
| "scan pf f p (Dir name readable entries) =
     (if \<not> readable then ([(p, TraversalWarning)], [])
      else
        (let rs = map snd (sort_key fst
                    (map (\<lambda>n. (node_name n, scan pf f (p @ ''/'' @ node_name n) n)) entries))
         in (concat (map fst rs), concat (map snd rs))))"

text \<open>
  Section 4.3: the buckets by size, in the order of discovery; only those with two entries
  or more are hashed.
\<close>

definition size_buckets ::
  "(Candidate \<times> string option) list \<Rightarrow> (nat \<times> (Candidate \<times> string option) list) list" where
  "size_buckets cands = foldl (\<lambda>d c. dict_append d (csize (fst c)) c) [] cands"

definition hashing_workload ::
  "(Candidate \<times> string option) list \<Rightarrow> (Candidate \<times> string option) list list" where
  "hashing_workload cands = filter (\<lambda>b. 2 \<le> length b) (map snd (size_buckets cands))"

text \<open>
  Section 4.4: one task for each path of the workload; a read that fails is a result with
  an error, not a failure of the batch. The pool delivers the results in an order of its
  own: \<open>deliver pf n\<close> rearranges the positions of the tasks.
\<close>

definition hash_task :: "platform \<Rightarrow> Candidate \<times> string option \<Rightarrow> HashResult" where
  "hash_task pf c =
     (case snd c of
        None \<Rightarrow> \<lparr>hpath = cpath (fst c), hdigest = [], herror = Some HashFailure\<rparr>
      | Some bytes \<Rightarrow> \<lparr>hpath = cpath (fst c), hdigest = digest pf bytes, herror = None\<rparr>)"

definition parallel_hash ::
  "platform \<Rightarrow> nat \<Rightarrow> (Candidate \<times> string option) list \<Rightarrow> HashResult list" where
  "parallel_hash pf workerCount work =
     map (\<lambda>i. hash_task pf (work ! i)) (filter (\<lambda>i. i < length work) (deliver pf workerCount [0..<length work]))"

text \<open>
  Section 4.5: within a bucket, the paths whose hash succeeded, grouped by digest in the
  order of the scan; a group of two or more is a set, its first path the original.
\<close>

definition hashed_ok :: "HashResult list \<Rightarrow> Candidate \<times> string option \<Rightarrow> (string \<times> path) option" where
  "hashed_ok results c =
     (case find (\<lambda>r. hpath r = cpath (fst c)) results of
        None \<Rightarrow> None
      | Some r \<Rightarrow> (case herror r of None \<Rightarrow> Some (hdigest r, cpath (fst c)) | Some e \<Rightarrow> None))"

definition digest_groups :: "HashResult list \<Rightarrow> (Candidate \<times> string option) list \<Rightarrow> path list list" where
  "digest_groups results bucket =
     map snd (foldl (\<lambda>d (dg, p). dict_append d dg p) [] (List.map_filter (hashed_ok results) bucket))"

fun set_of_group :: "path list \<Rightarrow> DuplicateSet list" where
  "set_of_group (p # q # ps) = [\<lparr>the_original = p, the_duplicates = q # ps\<rparr>]"
| "set_of_group ps = []"

text \<open>The position of a path in the scan: the number of candidates before it.\<close>

definition scan_position :: "(Candidate \<times> string option) list \<Rightarrow> path \<Rightarrow> nat" where
  "scan_position cands p = length (takeWhile (\<lambda>c. cpath (fst c) \<noteq> p) cands)"

definition group_duplicates ::
  "(Candidate \<times> string option) list \<Rightarrow> (Candidate \<times> string option) list list \<Rightarrow> HashResult list
     \<Rightarrow> DuplicateSet list" where
  "group_duplicates cands buckets results =
     sort_key (\<lambda>s. scan_position cands (the_original s))
       (concat (map (\<lambda>b. concat (map set_of_group (digest_groups results b))) buckets))"

text \<open>
  Section 6 and 7: the call. A root that is missing or not a directory, and a pool that
  cannot be created, fail the call; otherwise it returns the report and, on the side, the
  warnings: the directories that could not be read and the files that could not be hashed.
\<close>

definition engine ::
  "platform \<Rightarrow> node option \<Rightarrow> path \<Rightarrow> FileFilter \<Rightarrow> nat
     \<Rightarrow> ErrorKind + (DuplicateSet list \<times> (path \<times> ErrorKind) list)" where
  "engine pf root rootDirectory f workerCount =
     (case root of
        Some (Dir name readable entries) \<Rightarrow>
          if \<not> can_create_pool pf workerCount then Inl PoolExhaustion
          else
            (let (warnings, cands) = scan pf f rootDirectory (Dir name readable entries);
                 buckets = hashing_workload cands;
                 results = parallel_hash pf workerCount (concat buckets)
             in Inr (group_duplicates cands buckets results,
                     warnings @ map (\<lambda>r. (hpath r, HashFailure))
                                  (filter (\<lambda>r. herror r \<noteq> None) results)))
      | _ \<Rightarrow> Inl InvalidRoot)"

text \<open>
  Section 2: the report as the sequence of pairs of an original and a duplicate that the
  command consumes.
\<close>

definition report_pairs :: "DuplicateSet list \<Rightarrow> (path \<times> path) list" where
  "report_pairs sets =
     concat (map (\<lambda>s. map (\<lambda>d. (the_original s, d)) (the_duplicates s)) sets)"

text \<open>
  A tree as a file system has it: the names of the entries of a directory are distinct and
  hold no \<open>/\<close>.
\<close>

fun wf_node :: "node \<Rightarrow> bool" where
  "wf_node (File name sz content) = True"
| "wf_node (Dir_link name) = True"
| "wf_node (Dir name readable entries) =
     (distinct (map node_name entries) \<and>
      (\<forall>n \<in> set entries. CHR ''/'' \<notin> set (node_name n) \<and> wf_node n))"

text \<open>A pool delivers each result once: the order of delivery is a rearrangement.\<close>

definition rearranges :: "(nat \<Rightarrow> nat list \<Rightarrow> nat list) \<Rightarrow> bool" where
  "rearranges d = (\<forall>n xs. mset (d n xs) = mset xs)"

text \<open>The path \<open>q\<close> is \<open>p\<close> or lies below the directory \<open>p\<close>.\<close>

definition under :: "path \<Rightarrow> path \<Rightarrow> bool" where
  "under p q = (q = p \<or> (\<exists>r. q = p @ ''/'' @ r))"

text \<open>
  What the dictionary of lines 67 to 69 and the groupers of the engine compute: the
  values of the elements under each key, the keys in the order of their first element.
\<close>

definition group_by :: "('a \<Rightarrow> 'k) \<Rightarrow> ('a \<Rightarrow> 'v) \<Rightarrow> 'a list \<Rightarrow> ('k \<times> 'v list) list" where
  "group_by key val xs = foldl (\<lambda>d x. dict_append d (key x) (val x)) [] xs"

section \<open>What is observed of a run\<close>

fun is_Remove :: "event \<Rightarrow> bool" where
  "is_Remove (Remove p) = True"
| "is_Remove e = False"

fun is_Prompt :: "event \<Rightarrow> bool" where
  "is_Prompt (Prompt labels ans) = True"
| "is_Prompt e = False"

text \<open>
  The checkbox of \<open>inquirer\<close> returns, under \<open>files\<close>, labels among the choices it was given.
\<close>

definition checkbox_contract :: "'w env \<Rightarrow> bool" where
  "checkbox_contract env =
     (\<forall>labels w a w1. prompt env labels w = (Some a, w1) \<longrightarrow> set (files a) \<subseteq> set labels)"

text \<open>
  The event is a prompt the user confirmed, in which a ticked choice is the label that
  displays the path \<open>p\<close> at its position in the list of choices.
\<close>

fun ticked_path :: "event \<Rightarrow> path \<Rightarrow> bool" where
  "ticked_path (Prompt labels (Some a)) p =
     (confirm a \<and>
      (\<exists>i < length labels. labels ! i \<in> set (files a) \<and> (\<exists>sz. labels ! i = file_option i p sz)))"
| "ticked_path e p = False"

text \<open>
  The events that publish a part of the report of duplicates: every line echoed but the
  error message of line 56, the export file, the prompts and the removals.
\<close>

fun is_report :: "event \<Rightarrow> bool" where
  "is_report (Echo line colour) =
     (line \<noteq> ''Error while finding duplicates. Check the log for details.'')"
| "is_report (Open_w p) = True"
| "is_report (Write_file p line) = True"
| "is_report (Close_file p) = True"
| "is_report (Prompt labels ans) = True"
| "is_report (Remove p) = True"
| "is_report e = False"

text \<open>The filters handed to the detection functions during a run, in order.\<close>

fun filters_of :: "event list \<Rightarrow> FileFilter list" where
  "filters_of [] = []"
| "filters_of (Call_handleAllFlag d f lc bc # t) = f # filters_of t"
| "filters_of (Call_find_duplicates d f lc bc # t) = f # filters_of t"
| "filters_of (e # t) = filters_of t"

text \<open>
  Every path handed to \<open>handle_and_remove\<close> in the trace is a path ticked in a confirmed
  prompt of the trace.
\<close>

definition removes_ticked :: "event list \<Rightarrow> bool" where
  "removes_ticked t = (\<forall>p. Remove p \<in> set t \<longrightarrow> (\<exists>e \<in> set t. ticked_path e p))"

text \<open>
  The events of the export (lines 75 to 82) for the export file \<open>out\<close>, and those of the
  listing of the preview mode (line 88).
\<close>

fun export_event :: "path \<Rightarrow> event \<Rightarrow> bool" where
  "export_event out (Open_w p) = (p = out)"
| "export_event out (Write_file p line) = (p = out)"
| "export_event out (Close_file p) = (p = out)"
| "export_event out (Echo line colour) =
     (line = ''Duplicate details exported to '' @ out \<and> colour = SUCCESS_COLOR)"
| "export_event out e = False"

fun preview_event :: "event \<Rightarrow> bool" where
  "preview_event (Echo line colour) = (colour = INFO_COLOR)"
| "preview_event e = False"

text \<open>
  The events of a run that only lists: nothing is removed, nothing is asked, nothing is
  handed to \<open>handleAllFlag\<close>, and a file is opened, written or closed only if it is the
  export file \<open>exp\<close>.
\<close>

fun listing_event :: "string option \<Rightarrow> event \<Rightarrow> bool" where
  "listing_event exp (Open_w p) = (exp = Some p)"
| "listing_event exp (Write_file p line) = (exp = Some p)"
| "listing_event exp (Close_file p) = (exp = Some p)"
| "listing_event exp (Prompt labels ans) = False"
| "listing_event exp (Remove p) = False"
| "listing_event exp (Call_handleAllFlag d f lc bc) = False"
| "listing_event exp e = True"

text \<open>
  The events of lines 64 to 128: no call of a detection function, no error record, and no
  line echoed in the colour of errors or with the text of line 60.
\<close>

fun body_event :: "event \<Rightarrow> bool" where
  "body_event (Echo line colour) =
     (colour = INFO_COLOR \<or> colour = WARNING_COLOR \<or>
      (colour = SUCCESS_COLOR \<and> line \<noteq> ''No duplicate files found.''))"
| "body_event (Log_error line) = False"
| "body_event (Call_handleAllFlag d f lc bc) = False"
| "body_event (Call_find_duplicates d f lc bc) = False"
| "body_event e = True"

section \<open>Sample collaborators\<close>

text \<open>
  A small world on which the definitions can be run: the files deleted so far and the
  lines written to export files. Two files \<open>a.txt\<close> and \<open>b.txt\<close> of ten bytes with the
  same content, as in scenario A of the spec; the user ticks every label and confirms.
\<close>

record sample_world =
  deleted :: "path list"
  written :: "(path \<times> string) list"

definition sample_parse_size :: "string \<Rightarrow> exc + nat" where
  "sample_parse_size s =
     (if s = ''0kb'' then Inr 0
      else if s = ''1kb'' then Inr 1024
      else if s = ''2kb'' then Inr 2048
      else if s = ''1gb'' then Inr 1073741824
      else Inl (ValueError s))"

definition sample_env :: "sample_world env" where
  "sample_env =
     \<lparr> parse_size = sample_parse_size,
       new_FileFilter = \<lparr>minSize = 0, maxSize = 0, typePattern = [], excludeNames = {}\<rparr>,
       handleAllFlag = (\<lambda>d f lc bc w. (None, w)),
       find_duplicates = (\<lambda>d f lc bc w. (Inr [(''a.txt'', ''b.txt'')], w)),
       getsize = (\<lambda>p w. if p \<in> set (deleted w) then Inl (OSError p) else Inr 10),
       open_w = (\<lambda>p w. Inr w),
       write_file = (\<lambda>p line w. w\<lparr>written := written w @ [(p, line)]\<rparr>),
       close_file = (\<lambda>p w. w),
       prompt = (\<lambda>labels w. (Some \<lparr>files = labels, confirm = True\<rparr>, w)),
       handle_and_remove = (\<lambda>p w. w\<lparr>deleted := p # deleted w\<rparr>),
       format_mb = (\<lambda>n. show_nat (n div 1048576)),
       time_taken = (\<lambda>w0 w. ''0.00'') \<rparr>"

definition sample_options :: options where
  "sample_options =
     \<lparr> directory = ''dir'', all_flag = False, min_size = ''0kb'', max_size = ''1gb'',
       file_type = ''.*'', exclude = [], label_color = ''yellow'', bar_color = ''#aaaaaa'',
       preview = False, export = None \<rparr>"

definition sample_start :: sample_world where
  "sample_start = \<lparr>deleted = [], written = []\<rparr>"

text \<open>The same collaborators, with a detection that finds nothing.\<close>

definition sample_env_none :: "sample_world env" where
  "sample_env_none = sample_env\<lparr>find_duplicates := (\<lambda>d f lc bc w. (Inr [], w))\<rparr>"

text \<open>Options whose lower bound is above the upper bound.\<close>

definition inverted_options :: options where
  "inverted_options = sample_options\<lparr>min_size := ''2kb'', max_size := ''1kb''\<rparr>"

text \<open>The preview mode, without and with an export to one of the duplicates.\<close>

definition preview_options :: options where
  "preview_options = sample_options\<lparr>preview := True\<rparr>"

definition preview_export_options :: options where
  "preview_export_options = sample_options\<lparr>preview := True, export := Some ''b.txt''\<rparr>"

text \<open>
  Scenario A of the spec for the engine: two files of ten bytes with the same content and
  a third of twenty bytes; any name matches the pattern, the digest is the content itself,
  a pool needs one worker at least and delivers its results in the reverse order.
\<close>

definition sample_platform :: platform where
  "sample_platform =
     \<lparr> type_matches = (\<lambda>pattern name. True),
       digest = (\<lambda>bytes. bytes),
       can_create_pool = (\<lambda>n. 0 < n),
       deliver = (\<lambda>n xs. rev xs) \<rparr>"

definition sample_tree :: node where
  "sample_tree =
     Dir ''dir'' True
       [File ''b.txt'' 10 (Some ''XXXXXXXXXX''),
        File ''a.txt'' 10 (Some ''XXXXXXXXXX''),
        File ''c.txt'' 20 (Some ''YYYYYYYYYYYYYYYYYYYY'')]"

definition sample_filter :: FileFilter where
  "sample_filter = \<lparr>minSize = 0, maxSize = 1073741824, typePattern = ''.*'', excludeNames = {}\<rparr>"

section \<open>Decimal numerals and labels\<close>

lemma show_nat_small: "n < 10 \<Longrightarrow> show_nat n = [digit_char n]"
  by (subst show_nat.simps) simp

lemma show_nat_large:
  "\<not> n < 10 \<Longrightarrow> show_nat n = show_nat (n div 10) @ [digit_char (n mod 10)]"
  by (subst show_nat.simps) simp

lemma digit_char_is_digit: "d < 10 \<Longrightarrow> is_digit (digit_char d)"
  by (simp add: is_digit_def digit_char_def)

lemma digit_val_digit_char: "d < 10 \<Longrightarrow> digit_val (digit_char d) = d"
  by (simp add: digit_val_def digit_char_def)

lemma show_nat_digits: "\<forall>c \<in> set (show_nat n). is_digit c"
proof (induction n rule: show_nat.induct)
  case (1 n)
  show ?case
  proof (cases "n < 10")
    case True
    then show ?thesis by (simp add: digit_char_is_digit show_nat_small)
  next
    case False
    with 1 show ?thesis
      by (auto simp: digit_char_is_digit show_nat_large)
  qed
qed

lemma show_nat_nonempty: "show_nat n \<noteq> []"
  by (cases "n < 10") (simp_all add: show_nat_small show_nat_large)

lemma parse_digits_snoc:
  "\<forall>d \<in> set ds. is_digit d \<Longrightarrow> is_digit c \<Longrightarrow>
   parse_digits acc True (ds @ [c]) =
     map_option (\<lambda>v. 10 * v + digit_val c) (parse_digits acc True ds)"
  by (induction ds arbitrary: acc) auto

lemma parse_show_nat: "parse_digits 0 True (show_nat n) = Some n"
proof (induction n rule: show_nat.induct)
  case (1 n)
  show ?case
  proof (cases "n < 10")
    case True
    then show ?thesis
      by (simp add: digit_char_is_digit digit_val_digit_char show_nat_small)
  next
    case False
    have "parse_digits 0 True (show_nat (n div 10) @ [digit_char (n mod 10)])
       = map_option (\<lambda>v. 10 * v + digit_val (digit_char (n mod 10)))
           (parse_digits 0 True (show_nat (n div 10)))"
      by (rule parse_digits_snoc) (simp_all add: show_nat_digits digit_char_is_digit)
    with False 1 show ?thesis
      by (simp add: digit_val_digit_char show_nat_large)
  qed
qed

lemma digit_not_space: "is_digit c \<Longrightarrow> \<not> is_space c"
  by (auto simp: is_digit_def is_space_def)

lemma digit_not_sign:
  "is_digit c \<Longrightarrow> c \<noteq> CHR ''-'' \<and> c \<noteq> CHR ''+'' \<and> c \<noteq> CHR '')''"
  by (auto simp: is_digit_def)

lemma strip_digits:
  assumes ne: "s \<noteq> []" and dg: "\<forall>c \<in> set s. is_digit c"
  shows "strip s = s"
proof -
  have a: "dropWhile is_space s = s"
    using ne dg by (cases s) (auto simp: digit_not_space)
  have "rev s \<noteq> []" "\<forall>c \<in> set (rev s). is_digit c"
    using ne dg by auto
  then have b: "dropWhile is_space (rev s) = rev s"
    by (cases "rev s") (auto simp: digit_not_space)
  show ?thesis by (simp add: strip_def a b)
qed

lemma py_int_show_nat: "py_int (show_nat n) = Inr (int n)"
proof -
  obtain c cs where s: "show_nat n = c # cs"
    using show_nat_nonempty [of n] by (cases "show_nat n") auto
  have dg: "\<forall>d \<in> set (show_nat n). is_digit d"
    by (rule show_nat_digits)
  have st: "strip (show_nat n) = c # cs"
    using strip_digits [OF show_nat_nonempty dg] s by simp
  have c: "is_digit c"
    using dg s by simp
  have "parse_digits 0 False (c # cs) = parse_digits 0 True (c # cs)"
    using c by simp
  also have "\<dots> = Some n"
    using parse_show_nat [of n] s by simp
  finally show ?thesis
    using digit_not_sign [OF c] by (simp add: py_int_def st)
qed

lemma split_char_prefix:
  "sep \<notin> set p \<Longrightarrow> \<exists>ps. split_char sep (p @ sep # rest) = p # ps"
  by (induction p) auto

lemma selected_file_file_option:
  assumes "idx < length duplicates_list"
  shows "selected_file duplicates_list (file_option idx d sz) = Inr (duplicates_list ! idx)"
proof -
  have "CHR '')'' \<notin> set (show_nat (idx + 1))"
    using show_nat_digits [of "idx + 1"] digit_not_sign by blast
  then obtain ps where
    "split_char CHR '')'' (show_nat (idx + 1) @ CHR '')'' #
       ('' '' @ d @ '' (Size: '' @ show_nat sz @ '' bytes)'')) = show_nat (idx + 1) # ps"
    using split_char_prefix by blast
  then have sp: "split_char CHR '')'' (file_option idx d sz) = show_nat (idx + 1) # ps"
    by (simp add: file_option_def)
  show ?thesis
    using assms by (simp add: selected_file_def sp py_int_show_nat py_index_def)
qed

lemma file_options_nth:
  "file_options g k dl = Inr labels \<Longrightarrow>
   length labels = length dl \<and>
   (\<forall>i < length dl. \<exists>sz. g (dl ! i) = Inr sz \<and> labels ! i = file_option (k + i) (dl ! i) sz)"
proof (induction dl arbitrary: k labels)
  case Nil
  then show ?case by simp
next
  case (Cons d dl)
  from Cons.prems obtain sz ls where
    g: "g d = Inr sz" and r: "file_options g (Suc k) dl = Inr ls"
    and l: "labels = file_option k d sz # ls"
    by (auto split: sum.splits)
  from Cons.IH [OF r] have len: "length ls = length dl"
    and nth: "\<forall>i < length dl. \<exists>sz. g (dl ! i) = Inr sz \<and> ls ! i = file_option (Suc k + i) (dl ! i) sz"
    by simp_all
  show ?case
  proof (intro conjI allI impI)
    show "length labels = length (d # dl)" using l len by simp
  next
    fix i assume i: "i < length (d # dl)"
    show "\<exists>sz. g ((d # dl) ! i) = Inr sz \<and> labels ! i = file_option (k + i) ((d # dl) ! i) sz"
    proof (cases i)
      case 0
      then show ?thesis using g l by simp
    next
      case (Suc j)
      with i nth l show ?thesis by simp
    qed
  qed
qed

text \<open>
  C9. The label of line 98 and the decoding of line 119 form a round trip: for every list
  of duplicates and every position \<open>idx\<close> in it, the label
  \<open><idx+1>) <path> (Size: <n> bytes)\<close> of the entry at \<open>idx\<close> decodes (the text before the
  first \<open>)\<close> read as an integer, minus one, as an index into the list) to that entry,
  whatever characters the path holds, a \<open>)\<close> included, and whatever the size.
\<close>

theorem checkbox_label_round_trip:
  "idx < length duplicates_list \<Longrightarrow>
   selected_file duplicates_list (file_option idx (duplicates_list ! idx) sz)
     = Inr (duplicates_list ! idx)"
  by (rule selected_file_file_option)

theorem checkbox_label_round_trip_witness:
  "(1::nat) < length [''x.txt'', ''a)b(1).txt''] \<and>
   file_option 1 ''a)b(1).txt'' 7 = ''2) a)b(1).txt (Size: 7 bytes)'' \<and>
   selected_file [''x.txt'', ''a)b(1).txt''] ''2) a)b(1).txt (Size: 7 bytes)'' = Inr ''a)b(1).txt''"
proof -
  have h: "(1::nat) < length [''x.txt'', ''a)b(1).txt'']"
    by simp
  have l: "file_option 1 ''a)b(1).txt'' 7 = ''2) a)b(1).txt (Size: 7 bytes)''"
    by code_simp
  show ?thesis
    using h l checkbox_label_round_trip [OF h, of 7] by simp
qed

section \<open>The interactive mode removes what was ticked\<close>

lemma and_then_Completed [simp]:
  "and_then (t, w, Completed) k = (case k w of (t', w', r') \<Rightarrow> (t @ t', w', r'))"
  by (simp add: and_then_def)

lemma and_then_Raised [simp]: "and_then (t, w, Raised e) k = (t, w, Raised e)"
  by (simp add: and_then_def)

lemma remove_files_run:
  "remove_files env ps w = (map Remove ps, foldl (\<lambda>w p. handle_and_remove env p w) w ps, Completed)"
  by (induction ps arbitrary: w) auto

lemma files_to_delete_Inr:
  "files_to_delete dl ls = Inr ps \<Longrightarrow> list_all2 (\<lambda>l p. selected_file dl l = Inr p) ls ps"
  by (induction ls arbitrary: ps) (auto split: sum.splits)

lemma split_char_file_option:
  "\<exists>ps. split_char CHR '')'' (file_option idx d sz) = show_nat (idx + 1) # ps"
proof -
  have "CHR '')'' \<notin> set (show_nat (idx + 1))"
    using show_nat_digits [of "idx + 1"] digit_not_sign by blast
  then obtain ps where
    "split_char CHR '')'' (show_nat (idx + 1) @ CHR '')'' #
       ('' '' @ d @ '' (Size: '' @ show_nat sz @ '' bytes)'')) = show_nat (idx + 1) # ps"
    using split_char_prefix by blast
  then show ?thesis
    by (simp add: file_option_def)
qed

lemma show_nat_inj:
  assumes "show_nat m = show_nat n"
  shows "m = n"
proof -
  have "py_int (show_nat m) = py_int (show_nat n)"
    by (rule arg_cong [OF assms])
  then have "(Inr (int m) :: exc + int) = Inr (int n)"
    by (simp only: py_int_show_nat)
  then show ?thesis by simp
qed

lemma file_option_idx_inj:
  assumes "file_option i d sz = file_option j d' sz'"
  shows "i = j"
proof -
  obtain ps where a: "split_char CHR '')'' (file_option i d sz) = show_nat (i + 1) # ps"
    using split_char_file_option by blast
  obtain qs where b: "split_char CHR '')'' (file_option j d' sz') = show_nat (j + 1) # qs"
    using split_char_file_option by blast
  from a b assms have "show_nat (i + 1) = show_nat (j + 1)"
    by simp
  then have "i + 1 = j + 1" by (rule show_nat_inj)
  then show ?thesis by simp
qed

lemma file_options_distinct:
  assumes "file_options g 0 dl = Inr labels"
  shows "distinct labels"
proof -
  from file_options_nth [OF assms] have len: "length labels = length dl"
    and nth: "\<forall>i < length dl. \<exists>sz. labels ! i = file_option i (dl ! i) sz"
    by auto
  show ?thesis
    unfolding distinct_conv_nth
  proof (intro allI impI)
    fix i j assume "i < length labels" "j < length labels" "i \<noteq> j"
    with len nth obtain sz sz' where "labels ! i = file_option i (dl ! i) sz"
      "labels ! j = file_option j (dl ! j) sz'" by metis
    with \<open>i \<noteq> j\<close> show "labels ! i \<noteq> labels ! j"
      using file_option_idx_inj by metis
  qed
qed

lemma files_to_delete_total:
  assumes lab: "file_options g 0 dl = Inr labels" and sub: "set ls \<subseteq> set labels"
  shows "\<exists>ps. files_to_delete dl ls = Inr ps \<and>
           list_all2 (\<lambda>l p. \<exists>i < length dl. labels ! i = l \<and> dl ! i = p) ls ps"
  using sub
proof (induction ls)
  case Nil
  then show ?case by simp
next
  case (Cons l ls)
  then obtain ps where ps: "files_to_delete dl ls = Inr ps"
    and rel: "list_all2 (\<lambda>l p. \<exists>i < length dl. labels ! i = l \<and> dl ! i = p) ls ps"
    by auto
  from file_options_nth [OF lab] have len: "length labels = length dl"
    and nth: "\<forall>i < length dl. \<exists>sz. labels ! i = file_option i (dl ! i) sz"
    by auto
  from Cons.prems have "l \<in> set labels" by simp
  then obtain i where i: "i < length dl" "labels ! i = l"
    using len by (auto simp: in_set_conv_nth)
  with nth obtain sz where "l = file_option i (dl ! i) sz" by auto
  with i have "selected_file dl l = Inr (dl ! i)"
    using selected_file_file_option by simp
  with ps rel i show ?case by auto
qed


lemma act_on_answer_cancel:
  "ans = None \<or> (\<exists>a. ans = Some a \<and> \<not> confirm a) \<Longrightarrow>
   act_on_answer env dl ans w = ([Echo ''File deletion canceled.'' WARNING_COLOR], w, Completed)"
  by (auto simp: act_on_answer_def)

lemma interactive_set_prompted:
  assumes "file_options (\<lambda>p. getsize env p w) 0 dl = Inr labels"
      and "prompt env labels w = (ans, w1)"
  shows "interactive_set env (original, dl) w =
           (case act_on_answer env dl ans w1 of
              (t, w2, r) \<Rightarrow> (set_header original dl @ [Prompt labels ans] @ t, w2, r))"
  using assms by (simp add: interactive_set_def split: prod.splits)

lemma interactive_set_answered:
  assumes lab: "file_options (\<lambda>p. getsize env p w) 0 duplicates_list = Inr labels"
      and pr: "prompt env labels w = (ans, w1)"
      and sub: "\<forall>a. ans = Some a \<longrightarrow> set (files a) \<subseteq> set labels"
  shows "distinct labels \<and>
         (case ans of
            None \<Rightarrow>
              interactive_set env (original, duplicates_list) w =
                (set_header original duplicates_list
                   @ [Prompt labels ans, Echo ''File deletion canceled.'' WARNING_COLOR],
                 w1, Completed)
          | Some a \<Rightarrow>
              if confirm a then
                (\<exists>ps. interactive_set env (original, duplicates_list) w =
                        (set_header original duplicates_list @ [Prompt labels ans] @ map Remove ps,
                         foldl (\<lambda>w p. handle_and_remove env p w) w1 ps, Completed)
                    \<and> list_all2 (\<lambda>l p. \<exists>i < length duplicates_list. labels ! i = l \<and> duplicates_list ! i = p)
                         (files a) ps
                    \<and> (original \<notin> set duplicates_list \<longrightarrow> original \<notin> set ps))
              else
                interactive_set env (original, duplicates_list) w =
                  (set_header original duplicates_list
                     @ [Prompt labels ans, Echo ''File deletion canceled.'' WARNING_COLOR],
                   w1, Completed))"
proof (cases ans)
  case None
  then show ?thesis
    using file_options_distinct [OF lab] interactive_set_prompted [OF lab pr]
    by (simp add: act_on_answer_cancel)
next
  case (Some a)
  show ?thesis
  proof (cases "confirm a")
    case False
    with Some show ?thesis
      using file_options_distinct [OF lab] interactive_set_prompted [OF lab pr]
      by (simp add: act_on_answer_cancel)
  next
    case True
    from sub Some have "set (files a) \<subseteq> set labels" by simp
    from files_to_delete_total [OF lab this] obtain ps where
      ps: "files_to_delete duplicates_list (files a) = Inr ps"
      and rel: "list_all2 (\<lambda>l p. \<exists>i < length duplicates_list. labels ! i = l \<and> duplicates_list ! i = p)
                  (files a) ps"
      by blast
    have "set ps \<subseteq> set duplicates_list"
    proof
      fix p assume "p \<in> set ps"
      then obtain k where "k < length ps" "ps ! k = p" by (auto simp: in_set_conv_nth)
      with rel obtain i where "i < length duplicates_list" "duplicates_list ! i = p"
        by (auto simp: list_all2_conv_all_nth)
      then show "p \<in> set duplicates_list" by auto
    qed
    then have orig: "original \<notin> set duplicates_list \<longrightarrow> original \<notin> set ps" by blast
    have "act_on_answer env duplicates_list ans w1 =
            (map Remove ps, foldl (\<lambda>w p. handle_and_remove env p w) w1 ps, Completed)"
      using Some True ps by (simp add: act_on_answer_def remove_files_run)
    with interactive_set_prompted [OF lab pr, of original]
    have "interactive_set env (original, duplicates_list) w =
            (set_header original duplicates_list @ [Prompt labels ans] @ map Remove ps,
             foldl (\<lambda>w p. handle_and_remove env p w) w1 ps, Completed)"
      by simp
    with rel orig Some True file_options_distinct [OF lab] show ?thesis
      by auto
  qed
qed



section \<open>Every removal was ticked\<close>

lemma removes_ticked_append:
  "removes_ticked t1 \<Longrightarrow> removes_ticked t2 \<Longrightarrow> removes_ticked (t1 @ t2)"
  by (auto simp: removes_ticked_def)

lemma removes_ticked_quiet: "\<forall>e \<in> set t. \<not> is_Remove e \<Longrightarrow> removes_ticked t"
  by (auto simp: removes_ticked_def)

lemma and_then_trace:
  "fst (and_then r k) = fst r \<or> (\<exists>w. fst (and_then r k) = fst r @ fst (k w))"
proof (cases r)
  case (fields t w out)
  show ?thesis
  proof (cases out)
    case Completed
    obtain t' w' r' where kw: "k w = (t', w', r')"
      by (cases "k w")
    with fields Completed have "fst (and_then r k) = fst r @ fst (k w)"
      by simp
    then show ?thesis by blast
  next
    case (Raised e)
    with fields show ?thesis by simp
  qed
qed

lemma and_then_removes_ticked:
  assumes "removes_ticked (fst r)" and "\<And>w. removes_ticked (fst (k w))"
  shows "removes_ticked (fst (and_then r k))"
  using and_then_trace [of r k] assms removes_ticked_append by (metis)

lemma and_then_all:
  assumes "\<forall>e \<in> set (fst r). P e" and "\<And>w. \<forall>e \<in> set (fst (k w)). P e"
  shows "\<forall>e \<in> set (fst (and_then r k)). P e"
  using and_then_trace [of r k] assms by (metis Un_iff set_append)

lemma set_header_quiet: "\<forall>e \<in> set (set_header original dl). \<not> is_Remove e \<and> \<not> is_Prompt e"
  by (simp add: set_header_def)

lemma interactive_set_removes_ticked:
  assumes con: "checkbox_contract env"
  shows "removes_ticked (fst (interactive_set env s w))"
proof -
  obtain original dl where s: "s = (original, dl)" by (cases s)
  show ?thesis
  proof (cases "file_options (\<lambda>p. getsize env p w) 0 dl")
    case (Inl e)
    with s have "fst (interactive_set env s w) = set_header original dl"
      by (simp add: interactive_set_def)
    then show ?thesis
      using set_header_quiet removes_ticked_quiet by metis
  next
    case (Inr labels)
    obtain ans w1 where pr: "prompt env labels w = (ans, w1)"
      by (cases "prompt env labels w")
    have sub: "\<forall>a. ans = Some a \<longrightarrow> set (files a) \<subseteq> set labels"
      using con pr by (auto simp: checkbox_contract_def)
    note ans = interactive_set_answered [OF Inr pr sub, of original]
    have cancel: "removes_ticked (set_header original dl
        @ [Prompt labels ans, Echo ''File deletion canceled.'' WARNING_COLOR])"
      using set_header_quiet [of original dl] by (intro removes_ticked_quiet) auto
    show ?thesis
    proof (cases ans)
      case None
      with ans cancel s show ?thesis by simp
    next
      case (Some a)
      show ?thesis
      proof (cases "confirm a")
        case False
        with ans Some cancel s show ?thesis by simp
      next
        case True
        from ans Some True have
          "\<exists>ps. interactive_set env (original, dl) w =
                  (set_header original dl @ [Prompt labels ans] @ map Remove ps,
                   foldl (\<lambda>w p. handle_and_remove env p w) w1 ps, Completed)
              \<and> list_all2 (\<lambda>l p. \<exists>i < length dl. labels ! i = l \<and> dl ! i = p) (files a) ps
              \<and> (original \<notin> set dl \<longrightarrow> original \<notin> set ps)"
          by simp
        then obtain ps where
          run: "interactive_set env (original, dl) w =
                  (set_header original dl @ [Prompt labels ans] @ map Remove ps,
                   foldl (\<lambda>w p. handle_and_remove env p w) w1 ps, Completed)"
          and rel: "list_all2 (\<lambda>l p. \<exists>i < length dl. labels ! i = l \<and> dl ! i = p) (files a) ps"
          by blast
        from run s have
          tr: "fst (interactive_set env s w) = set_header original dl @ [Prompt labels ans] @ map Remove ps"
          by simp
        from file_options_nth [OF Inr] have len: "length labels = length dl"
          and nth: "\<forall>i < length dl. \<exists>sz. labels ! i = file_option i (dl ! i) sz"
          by auto
        have "ticked_path (Prompt labels ans) p" if "p \<in> set ps" for p
        proof -
          from that obtain k where k: "k < length ps" "ps ! k = p"
            by (auto simp: in_set_conv_nth)
          with rel obtain i where i: "i < length dl" "labels ! i = files a ! k" "dl ! i = p"
            and kl: "k < length (files a)"
            by (auto simp: list_all2_conv_all_nth)
          from nth i(1) have "\<exists>sz. labels ! i = file_option i (dl ! i) sz" by blast
          then obtain sz where "labels ! i = file_option i p sz" using i(3) by blast
          moreover have "labels ! i \<in> set (files a)" using i kl by simp
          ultimately show ?thesis
            using Some True i len by auto
        qed
        then show ?thesis
          using set_header_quiet [of original dl]
          unfolding removes_ticked_def tr by auto
      qed
    qed
  qed
qed

lemma interactive_sets_removes_ticked:
  "checkbox_contract env \<Longrightarrow> removes_ticked (fst (interactive_sets env dd w))"
proof (induction dd arbitrary: w)
  case Nil
  then show ?case by (simp add: removes_ticked_def)
next
  case (Cons s dd)
  then show ?case
    by (simp del: and_then_Completed and_then_Raised
        add: and_then_removes_ticked interactive_set_removes_ticked)
qed


lemma export_duplicates_events:
  "\<forall>e \<in> set (fst (export_duplicates env out ds w)). export_event out e"
proof (induction ds arbitrary: w)
  case Nil
  then show ?case by simp
next
  case (Cons d ds)
  show ?case
  proof (cases "getsize env d w")
    case (Inl e)
    then show ?thesis by simp
  next
    case (Inr sz)
    then show ?thesis
      using Cons.IH
      by (simp del: and_then_Completed and_then_Raised add: Let_def) (rule and_then_all, simp_all)
  qed
qed

lemma export_sets_events:
  "\<forall>e \<in> set (fst (export_sets env out dd w)). export_event out e"
proof (induction dd arbitrary: w)
  case Nil
  then show ?case by simp
next
  case (Cons s dd)
  obtain original dl where s: "s = (original, dl)" by (cases s)
  show ?case
    unfolding s export_sets.simps Let_def
    by (intro and_then_all allI) (simp_all add: export_duplicates_events Cons.IH)
qed

lemma export_report_events:
  "\<forall>e \<in> set (fst (export_report env exp dd tot w)). \<exists>out. exp = Some out \<and> export_event out e"
proof (cases exp)
  case None
  then show ?thesis by (simp add: export_report_def)
next
  case (Some out)
  show ?thesis
  proof (cases "out = []")
    case True
    with Some show ?thesis by (simp add: export_report_def)
  next
    case False
    show ?thesis
    proof (cases "open_w env out w")
      case (Inl e)
      with Some False show ?thesis by (simp add: export_report_def)
    next
      case (Inr w1)
      obtain t w2 r where es: "export_sets env out dd w1 = (t, w2, r)"
        by (cases "export_sets env out dd w1")
      have t: "\<forall>e \<in> set t. export_event out e"
        using export_sets_events [of env out dd w1] es by simp
      show ?thesis
        using Some False Inr es t
        by (cases r) (auto simp: export_report_def Let_def)
    qed
  qed
qed

lemma preview_duplicates_events:
  "\<forall>e \<in> set (fst (preview_duplicates env ds w)). preview_event e"
proof (induction ds arbitrary: w)
  case Nil
  then show ?case by simp
next
  case (Cons d ds)
  show ?case
  proof (cases "getsize env d w")
    case (Inl e)
    then show ?thesis by simp
  next
    case (Inr sz)
    then show ?thesis
      using Cons.IH
      by (simp del: and_then_Completed and_then_Raised)
        (rule and_then_all, simp_all add: preview_line_def)
  qed
qed

lemma preview_sets_events:
  "\<forall>e \<in> set (fst (preview_sets env dd w)). preview_event e"
proof (induction dd arbitrary: w)
  case Nil
  then show ?case by simp
next
  case (Cons s dd)
  obtain original dl where s: "s = (original, dl)" by (cases s)
  show ?case
    unfolding s preview_sets.simps
    by (intro and_then_all allI) (simp_all add: preview_duplicates_events Cons.IH)
qed

lemma export_event_quiet: "export_event out e \<Longrightarrow> \<not> is_Remove e \<and> \<not> is_Prompt e"
  by (cases e) auto

lemma preview_event_quiet: "preview_event e \<Longrightarrow> \<not> is_Remove e \<and> \<not> is_Prompt e"
  by (cases e) auto

lemma export_report_quiet:
  "\<forall>e \<in> set (fst (export_report env exp dd tot w)). \<not> is_Remove e \<and> \<not> is_Prompt e"
proof
  fix e assume "e \<in> set (fst (export_report env exp dd tot w))"
  with export_report_events [of env exp dd tot w] obtain out where "export_event out e"
    by auto
  then show "\<not> is_Remove e \<and> \<not> is_Prompt e"
    by (rule export_event_quiet)
qed

lemma preview_sets_quiet:
  "\<forall>e \<in> set (fst (preview_sets env dd w)). \<not> is_Remove e \<and> \<not> is_Prompt e"
proof
  fix e assume "e \<in> set (fst (preview_sets env dd w))"
  with preview_sets_events [of env dd w] have "preview_event e"
    by auto
  then show "\<not> is_Remove e \<and> \<not> is_Prompt e"
    by (rule preview_event_quiet)
qed

lemma after_export_removes_ticked:
  assumes "checkbox_contract env"
  shows "removes_ticked (fst (after_export env opts w0 dd w))"
proof (cases "preview opts")
  case True
  have "removes_ticked (fst (and_then
          ([Echo ''Preview mode active - No files will be deleted.'' SUCCESS_COLOR], w, Completed)
          (preview_sets env dd)))"
    by (rule and_then_removes_ticked)
      (simp_all add: removes_ticked_quiet preview_sets_quiet)
  with True show ?thesis
    by (simp add: after_export_def del: and_then_Completed and_then_Raised)
next
  case False
  have "removes_ticked (fst (and_then (interactive_sets env dd w)
          (\<lambda>w. ([Echo (''Time taken: '' @ time_taken env w0 w @ '' seconds.'') SUCCESS_COLOR,
                 Log_info (''Total time taken: '' @ time_taken env w0 w @ '' seconds.'')],
                w, Completed))))"
    by (rule and_then_removes_ticked)
      (simp_all add: removes_ticked_quiet interactive_sets_removes_ticked [OF assms])
  with False show ?thesis
    by (simp add: after_export_def del: and_then_Completed and_then_Raised)
qed

lemma report_removes_ticked:
  assumes "checkbox_contract env"
  shows "removes_ticked (fst (report env opts w0 duplicates w))"
  unfolding report_def
proof (rule and_then_removes_ticked)
  show "removes_ticked (fst ([Echo (''Found '' @ show_nat (length duplicates) @ '' sets of duplicate files:'') WARNING_COLOR,
         Log_info (''Found '' @ show_nat (length duplicates) @ '' sets of duplicate files'')],
        w, Completed))"
    by (simp add: removes_ticked_quiet)
next
  fix w1
  show "removes_ticked (fst (case total_size env (duplicates_dict duplicates) w1 of
            Inl e \<Rightarrow> ([], w1, Raised e)
          | Inr tot \<Rightarrow>
              and_then
                ([Echo (''Total potential space saved: '' @ format_mb env tot @ '' MB'') SUCCESS_COLOR,
                  Log_info (''Total potential space saved: '' @ format_mb env tot @ '' MB'')],
                 w1, Completed)
                (\<lambda>w. and_then (export_report env (export opts) (duplicates_dict duplicates) tot w)
                     (after_export env opts w0 (duplicates_dict duplicates)))))"
  proof (cases "total_size env (duplicates_dict duplicates) w1")
    case (Inl e)
    then show ?thesis by (simp add: removes_ticked_quiet)
  next
    case (Inr tot)
    have "removes_ticked (fst (and_then
                ([Echo (''Total potential space saved: '' @ format_mb env tot @ '' MB'') SUCCESS_COLOR,
                  Log_info (''Total potential space saved: '' @ format_mb env tot @ '' MB'')],
                 w1, Completed)
                (\<lambda>w. and_then (export_report env (export opts) (duplicates_dict duplicates) tot w)
                     (after_export env opts w0 (duplicates_dict duplicates)))))"
    proof (rule and_then_removes_ticked)
      show "removes_ticked (fst ([Echo (''Total potential space saved: '' @ format_mb env tot @ '' MB'') SUCCESS_COLOR,
                  Log_info (''Total potential space saved: '' @ format_mb env tot @ '' MB'')],
                 w1, Completed))"
        by (simp add: removes_ticked_quiet)
    next
      fix w2
      show "removes_ticked (fst (and_then (export_report env (export opts) (duplicates_dict duplicates) tot w2)
                     (after_export env opts w0 (duplicates_dict duplicates))))"
        by (rule and_then_removes_ticked)
          (simp_all add: removes_ticked_quiet export_report_quiet after_export_removes_ticked [OF assms])
    qed
    with Inr show ?thesis by (simp del: and_then_Completed and_then_Raised)
  qed
qed

lemma after_detection_removes_ticked:
  assumes "checkbox_contract env"
  shows "removes_ticked (fst (after_detection env opts w0 r w))"
  by (cases r) (simp_all add: after_detection_def removes_ticked_quiet report_removes_ticked [OF assms])

lemma cli_removes_ticked:
  assumes "checkbox_contract env"
  shows "removes_ticked (fst (cli env opts w))"
proof (cases "make_filter env opts")
  case (Inl e)
  then show ?thesis by (simp add: cli_def removes_ticked_quiet)
next
  case (Inr ff)
  show ?thesis
  proof (cases "all_flag opts")
    case True
    with Inr show ?thesis
      by (simp add: cli_def removes_ticked_quiet split: prod.splits)
  next
    case False
    obtain r w1 where fd:
      "find_duplicates env (directory opts) ff (label_color opts) (bar_color opts) w = (r, w1)"
      by (cases "find_duplicates env (directory opts) ff (label_color opts) (bar_color opts) w")
    have "removes_ticked (fst (and_then
            ([Log_info (''Searching for duplicates in directory: '' @ directory opts),
              Call_find_duplicates (directory opts) ff (label_color opts) (bar_color opts)],
             w1, Completed)
            (after_detection env opts w r)))"
      by (rule and_then_removes_ticked)
        (simp_all add: removes_ticked_quiet after_detection_removes_ticked [OF assms])
    with Inr False fd show ?thesis
      by (simp add: cli_def del: and_then_Completed and_then_Raised)
  qed
qed

lemmas cli_defs = cli_def make_filter_def after_detection_def report_def after_export_def
  export_report_def export_total_line_def interactive_set_def act_on_answer_def set_header_def
  total_size_def duplicates_dict_def Let_def
  setMinFileSize_def setMaxFileSize_def setFileType_def addFileExclude_def

lemmas sample_defs = sample_env_def sample_options_def sample_start_def sample_parse_size_def

lemma sample_label: "file_option 0 ''b.txt'' 10 = ''1) b.txt (Size: 10 bytes)''"
  by code_simp

lemma sample_selected: "selected_file [''b.txt''] ''1) b.txt (Size: 10 bytes)'' = Inr ''b.txt''"
  using selected_file_file_option [of 0 "[''b.txt'']" "''b.txt''" 10] by (simp add: sample_label)

lemma sample_contract: "checkbox_contract sample_env"
  by (auto simp: checkbox_contract_def sample_env_def)



section \<open>The report follows the detection\<close>

lemma export_event_body: "export_event out e \<Longrightarrow> body_event e"
  by (cases e) (auto simp: SUCCESS_COLOR_def)

lemma preview_event_body: "preview_event e \<Longrightarrow> body_event e"
  by (cases e) auto

lemma export_report_body:
  "\<forall>e \<in> set (fst (export_report env exp dd tot w)). body_event e"
proof
  fix e assume "e \<in> set (fst (export_report env exp dd tot w))"
  with export_report_events [of env exp dd tot w] obtain out where "export_event out e"
    by auto
  then show "body_event e"
    by (rule export_event_body)
qed

lemma preview_sets_body:
  "\<forall>e \<in> set (fst (preview_sets env dd w)). body_event e"
proof
  fix e assume "e \<in> set (fst (preview_sets env dd w))"
  with preview_sets_events [of env dd w] have "preview_event e"
    by auto
  then show "body_event e"
    by (rule preview_event_body)
qed

lemma act_on_answer_body:
  "\<forall>e \<in> set (fst (act_on_answer env dl ans w)). body_event e"
  by (auto simp: act_on_answer_def remove_files_run split: option.splits sum.splits)

lemma interactive_set_body:
  "\<forall>e \<in> set (fst (interactive_set env s w)). body_event e"
proof -
  obtain original dl where s: "s = (original, dl)" by (cases s)
  have "\<forall>e \<in> set (fst (and_then (set_header original dl, w, Completed)
          (\<lambda>w. case file_options (\<lambda>p. getsize env p w) 0 dl of
               Inl e \<Rightarrow> ([], w, Raised e)
             | Inr labels \<Rightarrow>
                 (case prompt env labels w of
                    (ans, w1) \<Rightarrow>
                      and_then ([Prompt labels ans], w1, Completed)
                        (act_on_answer env dl ans))))). body_event e"
  proof (rule and_then_all)
    show "\<forall>e \<in> set (fst (set_header original dl, w, Completed)). body_event e"
      by (simp add: set_header_def)
  next
    fix w'
    show "\<forall>e \<in> set (fst (case file_options (\<lambda>p. getsize env p w') 0 dl of
               Inl e \<Rightarrow> ([], w', Raised e)
             | Inr labels \<Rightarrow>
                 (case prompt env labels w' of
                    (ans, w1) \<Rightarrow>
                      and_then ([Prompt labels ans], w1, Completed)
                        (act_on_answer env dl ans)))). body_event e"
    proof (cases "file_options (\<lambda>p. getsize env p w') 0 dl")
      case (Inl e)
      then show ?thesis by simp
    next
      case (Inr labels)
      obtain ans w1 where pr: "prompt env labels w' = (ans, w1)"
        by (cases "prompt env labels w'")
      have "\<forall>e \<in> set (fst (and_then ([Prompt labels ans], w1, Completed)
                        (act_on_answer env dl ans))). body_event e"
        by (rule and_then_all) (simp_all add: act_on_answer_body)
      with Inr pr show ?thesis
        by (simp del: and_then_Completed and_then_Raised)
    qed
  qed
  with s show ?thesis
    by (simp add: interactive_set_def del: and_then_Completed and_then_Raised)
qed

lemma interactive_sets_body:
  "\<forall>e \<in> set (fst (interactive_sets env dd w)). body_event e"
proof (induction dd arbitrary: w)
  case Nil
  then show ?case by simp
next
  case (Cons s dd)
  show ?case
    unfolding interactive_sets.simps
    by (rule and_then_all) (simp_all add: interactive_set_body Cons.IH)
qed

lemma after_export_body:
  "\<forall>e \<in> set (fst (after_export env opts w0 dd w)). body_event e"
proof (cases "preview opts")
  case True
  have "\<forall>e \<in> set (fst (and_then
          ([Echo ''Preview mode active - No files will be deleted.'' SUCCESS_COLOR], w, Completed)
          (preview_sets env dd))). body_event e"
    by (rule and_then_all) (simp_all add: preview_sets_body)
  with True show ?thesis
    by (simp add: after_export_def del: and_then_Completed and_then_Raised)
next
  case False
  have "\<forall>e \<in> set (fst (and_then (interactive_sets env dd w)
          (\<lambda>w. ([Echo (''Time taken: '' @ time_taken env w0 w @ '' seconds.'') SUCCESS_COLOR,
                 Log_info (''Total time taken: '' @ time_taken env w0 w @ '' seconds.'')],
                w, Completed)))). body_event e"
    by (rule and_then_all) (simp_all add: interactive_sets_body)
  with False show ?thesis
    by (simp add: after_export_def del: and_then_Completed and_then_Raised)
qed

lemma report_body:
  "\<forall>e \<in> set (fst (report env opts w0 duplicates w)). body_event e"
  unfolding report_def
proof (rule and_then_all)
  show "\<forall>e \<in> set (fst ([Echo (''Found '' @ show_nat (length duplicates) @ '' sets of duplicate files:'') WARNING_COLOR,
         Log_info (''Found '' @ show_nat (length duplicates) @ '' sets of duplicate files'')],
        w, Completed)). body_event e"
    by simp
next
  fix w1
  show "\<forall>e \<in> set (fst (case total_size env (duplicates_dict duplicates) w1 of
            Inl e \<Rightarrow> ([], w1, Raised e)
          | Inr tot \<Rightarrow>
              and_then
                ([Echo (''Total potential space saved: '' @ format_mb env tot @ '' MB'') SUCCESS_COLOR,
                  Log_info (''Total potential space saved: '' @ format_mb env tot @ '' MB'')],
                 w1, Completed)
                (\<lambda>w. and_then (export_report env (export opts) (duplicates_dict duplicates) tot w)
                     (after_export env opts w0 (duplicates_dict duplicates))))). body_event e"
  proof (cases "total_size env (duplicates_dict duplicates) w1")
    case (Inl e)
    then show ?thesis by simp
  next
    case (Inr tot)
    have "\<forall>e \<in> set (fst (and_then
                ([Echo (''Total potential space saved: '' @ format_mb env tot @ '' MB'') SUCCESS_COLOR,
                  Log_info (''Total potential space saved: '' @ format_mb env tot @ '' MB'')],
                 w1, Completed)
                (\<lambda>w. and_then (export_report env (export opts) (duplicates_dict duplicates) tot w)
                     (after_export env opts w0 (duplicates_dict duplicates))))). body_event e"
    proof (rule and_then_all)
      show "\<forall>e \<in> set (fst ([Echo (''Total potential space saved: '' @ format_mb env tot @ '' MB'') SUCCESS_COLOR,
                  Log_info (''Total potential space saved: '' @ format_mb env tot @ '' MB'')],
                 w1, Completed)). body_event e"
        by simp
    next
      fix w2
      show "\<forall>e \<in> set (fst (and_then (export_report env (export opts) (duplicates_dict duplicates) tot w2)
                     (after_export env opts w0 (duplicates_dict duplicates)))). body_event e"
        by (rule and_then_all) (simp_all add: export_report_body after_export_body)
    qed
    with Inr show ?thesis by (simp del: and_then_Completed and_then_Raised)
  qed
qed


lemma cli_unparsed:
  "make_filter env opts = Inl e \<Longrightarrow> cli env opts w = ([], w, Raised e)"
  by (simp add: cli_def)

lemma cli_all:
  assumes "all_flag opts" and "make_filter env opts = Inr ff"
  shows "cli env opts w =
           ([Log_info ''Deleting all duplicate files without asking.'',
             Call_handleAllFlag (directory opts) ff (label_color opts) (bar_color opts)],
            snd (handleAllFlag env (directory opts) ff (label_color opts) (bar_color opts) w),
            case fst (handleAllFlag env (directory opts) ff (label_color opts) (bar_color opts) w) of
              None \<Rightarrow> Completed | Some e \<Rightarrow> Raised e)"
  using assms by (simp add: cli_def split: prod.splits)

lemma cli_detects:
  assumes "\<not> all_flag opts" and "make_filter env opts = Inr ff"
    and "find_duplicates env (directory opts) ff (label_color opts) (bar_color opts) w = (r, w1)"
  shows "cli env opts w =
           (case after_detection env opts w r w1 of
              (t, w2, out) \<Rightarrow>
                ([Log_info (''Searching for duplicates in directory: '' @ directory opts),
                  Call_find_duplicates (directory opts) ff (label_color opts) (bar_color opts)] @ t,
                 w2, out))"
  using assms by (simp add: cli_def split: prod.splits)

lemma after_detection_failed:
  "after_detection env opts w0 (Inl e) w =
     (if is_Exception e then
        ([Log_error (''Error finding duplicates: '' @ str_exc e),
          Echo ''Error while finding duplicates. Check the log for details.'' ERROR_COLOR],
         w, Completed)
      else ([], w, Raised e))"
  by (simp add: after_detection_def)

lemma after_detection_empty:
  "after_detection env opts w0 (Inr []) w =
     ([Echo ''No duplicate files found.'' SUCCESS_COLOR, Log_info ''No duplicate files found.''],
      w, Completed)"
  by (simp add: after_detection_def)

lemma after_detection_found:
  "duplicates \<noteq> [] \<Longrightarrow>
   after_detection env opts w0 (Inr duplicates) w = report env opts w0 duplicates w"
  by (simp add: after_detection_def)

lemma body_event_verdict:
  "body_event e \<Longrightarrow>
   e \<noteq> Echo ''No duplicate files found.'' SUCCESS_COLOR \<and>
   e \<noteq> Echo ''Error while finding duplicates. Check the log for details.'' ERROR_COLOR"
  by (cases e) (auto simp: INFO_COLOR_def WARNING_COLOR_def SUCCESS_COLOR_def ERROR_COLOR_def)

text \<open>
  C7. In every run, an event that publishes a part of the report (a line echoed other than
  the error message, the export file, a prompt, a removal) comes after the call of
  \<open>find_duplicates\<close>, and that call has returned a list: \<open>cli\<close> receives the whole result of
  the detection pass at once and publishes nothing before, and when the pass raises nothing
  of the report is published. With \<open>--all\<close>, \<open>cli\<close> itself publishes nothing.
\<close>

theorem report_after_detection:
  "\<forall>i < length (fst (cli env opts w)).
     is_report (fst (cli env opts w) ! i) \<longrightarrow>
     (\<exists>j < i. \<exists>ff dups.
        fst (cli env opts w) ! j =
          Call_find_duplicates (directory opts) ff (label_color opts) (bar_color opts) \<and>
        make_filter env opts = Inr ff \<and>
        fst (find_duplicates env (directory opts) ff (label_color opts) (bar_color opts) w) = Inr dups)"
proof (cases "make_filter env opts")
  case (Inl e)
  then show ?thesis by (simp add: cli_unparsed)
next
  case (Inr ff)
  show ?thesis
  proof (cases "all_flag opts")
    case True
    have "\<forall>e \<in> set (fst (cli env opts w)). \<not> is_report e"
      unfolding cli_all [OF True Inr] by simp
    then show ?thesis
      by (simp add: nth_mem)
  next
    case False
    obtain r w1 where fd:
      "find_duplicates env (directory opts) ff (label_color opts) (bar_color opts) w = (r, w1)"
      by (cases "find_duplicates env (directory opts) ff (label_color opts) (bar_color opts) w")
    obtain t w2 out where ad: "after_detection env opts w r w1 = (t, w2, out)"
      by (cases "after_detection env opts w r w1")
    have tr: "fst (cli env opts w) =
        [Log_info (''Searching for duplicates in directory: '' @ directory opts),
         Call_find_duplicates (directory opts) ff (label_color opts) (bar_color opts)] @ t"
      using cli_detects [OF False Inr fd] ad by simp
    show ?thesis
    proof (cases r)
      case (Inl e)
      with ad have "t = [Log_error (''Error finding duplicates: '' @ str_exc e),
          Echo ''Error while finding duplicates. Check the log for details.'' ERROR_COLOR] \<or> t = []"
        by (auto simp: after_detection_failed split: if_splits)
      then have "\<forall>e \<in> set (fst (cli env opts w)). \<not> is_report e"
        unfolding tr by auto
      then show ?thesis
        by (simp add: nth_mem)
    next
      case (Inr dups)
      show ?thesis
      proof (intro allI impI)
        fix i assume i: "i < length (fst (cli env opts w))"
          and rep: "is_report (fst (cli env opts w) ! i)"
        have "i \<noteq> 0"
          using rep unfolding tr by (cases i) simp_all
        moreover have "i \<noteq> Suc 0"
        proof
          assume "i = Suc 0"
          with rep show False unfolding tr by simp
        qed
        ultimately have "1 < i" by simp
        moreover have "fst (cli env opts w) ! 1 =
            Call_find_duplicates (directory opts) ff (label_color opts) (bar_color opts)"
          unfolding tr by simp
        ultimately show "\<exists>j < i. \<exists>ff dups.
            fst (cli env opts w) ! j =
              Call_find_duplicates (directory opts) ff (label_color opts) (bar_color opts) \<and>
            make_filter env opts = Inr ff \<and>
            fst (find_duplicates env (directory opts) ff (label_color opts) (bar_color opts) w) = Inr dups"
          using \<open>make_filter env opts = Inr ff\<close> fd Inr by auto
      qed
    qed
  qed
qed



lemma sample_filter:
  "make_filter sample_env sample_options =
     Inr \<lparr>minSize = 0, maxSize = 1073741824, typePattern = ''.*'', excludeNames = {}\<rparr>"
  by (simp add: make_filter_def sample_defs setMinFileSize_def setMaxFileSize_def
      setFileType_def addFileExclude_def)

lemma sample_filter_none:
  "make_filter sample_env_none sample_options =
     Inr \<lparr>minSize = 0, maxSize = 1073741824, typePattern = ''.*'', excludeNames = {}\<rparr>"
  by (simp add: make_filter_def sample_env_none_def sample_defs setMinFileSize_def
      setMaxFileSize_def setFileType_def addFileExclude_def)

theorem report_after_detection_witness:
  "2 < length (fst (cli sample_env sample_options sample_start)) \<and>
   is_report (fst (cli sample_env sample_options sample_start) ! 2) \<and>
   (\<exists>j < 2. \<exists>ff dups.
      fst (cli sample_env sample_options sample_start) ! j =
        Call_find_duplicates (directory sample_options) ff (label_color sample_options)
          (bar_color sample_options) \<and>
      make_filter sample_env sample_options = Inr ff \<and>
      fst (find_duplicates sample_env (directory sample_options) ff (label_color sample_options)
             (bar_color sample_options) sample_start) = Inr dups)"
proof -
  have a: "2 < length (fst (cli sample_env sample_options sample_start))"
    by (simp add: cli_defs sample_defs sample_label sample_selected)
  have b: "is_report (fst (cli sample_env sample_options sample_start) ! 2)"
    by (simp add: cli_defs sample_defs sample_label sample_selected)
  from report_after_detection [of sample_env sample_options sample_start] a b
  show ?thesis by blast
qed


section \<open>The filter of a run\<close>

lemma foldl_addFileExclude:
  "minSize (foldl (\<lambda>file_filter file_name. addFileExclude file_name file_filter) f xs) = minSize f \<and>
   maxSize (foldl (\<lambda>file_filter file_name. addFileExclude file_name file_filter) f xs) = maxSize f \<and>
   typePattern (foldl (\<lambda>file_filter file_name. addFileExclude file_name file_filter) f xs) = typePattern f \<and>
   excludeNames (foldl (\<lambda>file_filter file_name. addFileExclude file_name file_filter) f xs)
     = excludeNames f \<union> set xs"
  by (induction xs arbitrary: f) (auto simp: addFileExclude_def)

lemma make_filter_fields:
  assumes "make_filter env opts = Inr ff"
  shows "parse_size env (min_size opts) = Inr (minSize ff) \<and>
         parse_size env (max_size opts) = Inr (maxSize ff) \<and>
         typePattern ff = file_type opts \<and>
         excludeNames ff = excludeNames (new_FileFilter env) \<union> set (exclude opts)"
  using assms
  by (auto simp: make_filter_def foldl_addFileExclude setMinFileSize_def setMaxFileSize_def
      setFileType_def split: sum.splits)

lemma filters_of_body: "\<forall>e \<in> set t. body_event e \<Longrightarrow> filters_of t = []"
proof (induction t)
  case Nil
  then show ?case by simp
next
  case (Cons e t)
  then show ?case by (cases e) simp_all
qed

lemma filters_of_after_detection: "filters_of (fst (after_detection env opts w0 r w)) = []"
proof (cases r)
  case (Inl e)
  then show ?thesis by (simp add: after_detection_failed)
next
  case (Inr dups)
  then show ?thesis
    by (cases "dups = []")
      (simp_all add: after_detection_empty after_detection_found filters_of_body report_body)
qed




section \<open>The preview mode only lists\<close>

lemma and_then_split:
  "and_then r k =
     (case r of
        (t, w, Raised e) \<Rightarrow> (t, w, Raised e)
      | (t, w, Completed) \<Rightarrow> (t @ fst (k w), fst (snd (k w)), snd (snd (k w))))"
  by (auto simp: and_then_def split: prod.splits outcome.splits)

lemma and_then_world:
  assumes "fst (snd r) = w" and "\<And>w'. w' = w \<Longrightarrow> fst (snd (k w')) = w"
  shows "fst (snd (and_then r k)) = w"
  using assms by (auto simp: and_then_split split: prod.splits outcome.splits)

lemma preview_duplicates_world: "fst (snd (preview_duplicates env ds w)) = w"
proof (induction ds)
  case Nil
  then show ?case by simp
next
  case (Cons d ds)
  show ?case
  proof (cases "getsize env d w")
    case (Inl e)
    then show ?thesis by simp
  next
    case (Inr sz)
    then show ?thesis
      using Cons.IH
      by (simp del: and_then_Completed and_then_Raised add: and_then_split)
  qed
qed

lemma preview_sets_world: "fst (snd (preview_sets env dd w)) = w"
proof (induction dd)
  case Nil
  then show ?case by simp
next
  case (Cons s dd)
  obtain original dl where s: "s = (original, dl)" by (cases s)
  show ?case
    unfolding s preview_sets.simps
    by (rule and_then_world) (simp_all add: preview_duplicates_world Cons.IH)
qed

lemma export_report_none: "export_report env None dd tot w = ([], w, Completed)"
  by (simp add: export_report_def)

lemma export_duplicates_frame:
  "export_duplicates (env\<lparr>prompt := q, handle_and_remove := h\<rparr>) out ds w
     = export_duplicates env out ds w"
  by (induction ds arbitrary: w) (simp_all add: Let_def and_then_split split: sum.splits)

lemma export_sets_frame:
  "export_sets (env\<lparr>prompt := q, handle_and_remove := h\<rparr>) out dd w = export_sets env out dd w"
proof (induction dd arbitrary: w)
  case Nil
  then show ?case by simp
next
  case (Cons s dd)
  obtain original dl where s: "s = (original, dl)" by (cases s)
  show ?case
    unfolding s export_sets.simps Let_def export_duplicates_frame
    by (simp add: and_then_split Cons.IH split: prod.splits outcome.splits)
qed

lemma export_report_frame:
  "export_report (env\<lparr>prompt := q, handle_and_remove := h\<rparr>) exp dd tot w
     = export_report env exp dd tot w"
  by (simp add: export_report_def export_sets_frame export_total_line_def
      cong: option.case_cong sum.case_cong prod.case_cong outcome.case_cong if_cong)

lemma preview_duplicates_frame:
  "preview_duplicates (env\<lparr>prompt := q, handle_and_remove := h\<rparr>) ds w
     = preview_duplicates env ds w"
  by (induction ds arbitrary: w) (simp_all add: and_then_split split: sum.splits)

lemma preview_sets_frame:
  "preview_sets (env\<lparr>prompt := q, handle_and_remove := h\<rparr>) dd w = preview_sets env dd w"
proof (induction dd arbitrary: w)
  case Nil
  then show ?case by simp
next
  case (Cons s dd)
  obtain original dl where s: "s = (original, dl)" by (cases s)
  show ?case
    unfolding s preview_sets.simps preview_duplicates_frame
    by (simp add: and_then_split Cons.IH split: prod.splits outcome.splits)
qed

lemma after_export_preview_frame:
  "preview opts \<Longrightarrow>
   after_export (env\<lparr>prompt := q, handle_and_remove := h\<rparr>) opts w0 dd w
     = after_export env opts w0 dd w"
  by (simp add: after_export_def and_then_split preview_sets_frame
      del: and_then_Completed and_then_Raised)

lemma report_preview_frame:
  "preview opts \<Longrightarrow>
   report (env\<lparr>prompt := q, handle_and_remove := h\<rparr>) opts w0 dups w = report env opts w0 dups w"
  by (simp add: report_def total_size_def and_then_split export_report_frame
      after_export_preview_frame
      del: and_then_Completed and_then_Raised
      cong: sum.case_cong prod.case_cong outcome.case_cong)

lemma after_detection_preview_frame:
  "preview opts \<Longrightarrow>
   after_detection (env\<lparr>prompt := q, handle_and_remove := h\<rparr>) opts w0 r w
     = after_detection env opts w0 r w"
  by (simp add: after_detection_def report_preview_frame cong: sum.case_cong if_cong)

lemma make_filter_frame:
  "make_filter (env\<lparr>prompt := q, handle_and_remove := h\<rparr>) opts = make_filter env opts"
  by (simp add: make_filter_def cong: sum.case_cong)

lemma cli_preview_frame:
  assumes "preview opts" and "\<not> all_flag opts"
  shows "cli (env\<lparr>prompt := q, handle_and_remove := h\<rparr>) opts w = cli env opts w"
  using assms
  by (simp add: cli_def make_filter_frame and_then_split after_detection_preview_frame
      del: and_then_Completed and_then_Raised
      cong: sum.case_cong prod.case_cong outcome.case_cong)

lemma export_event_listing: "export_event out e \<Longrightarrow> listing_event (Some out) e"
  by (cases e) auto

lemma preview_event_listing: "preview_event e \<Longrightarrow> listing_event exp e"
  by (cases e) auto

lemma export_report_listing:
  "\<forall>e \<in> set (fst (export_report env exp dd tot w)). listing_event exp e"
proof
  fix e assume "e \<in> set (fst (export_report env exp dd tot w))"
  with export_report_events [of env exp dd tot w] obtain out
    where "exp = Some out" "export_event out e"
    by auto
  then show "listing_event exp e"
    using export_event_listing by simp
qed

lemma preview_sets_listing:
  "\<forall>e \<in> set (fst (preview_sets env dd w)). listing_event exp e"
proof
  fix e assume "e \<in> set (fst (preview_sets env dd w))"
  with preview_sets_events [of env dd w] have "preview_event e"
    by auto
  then show "listing_event exp e"
    by (rule preview_event_listing)
qed

lemma after_export_listing:
  assumes "preview opts"
  shows "\<forall>e \<in> set (fst (after_export env opts w0 dd w)). listing_event exp e"
proof -
  have "\<forall>e \<in> set (fst (and_then
          ([Echo ''Preview mode active - No files will be deleted.'' SUCCESS_COLOR], w, Completed)
          (preview_sets env dd))). listing_event exp e"
    by (rule and_then_all) (simp_all add: preview_sets_listing)
  with assms show ?thesis
    by (simp add: after_export_def del: and_then_Completed and_then_Raised)
qed

lemma report_listing:
  assumes "preview opts"
  shows "\<forall>e \<in> set (fst (report env opts w0 duplicates w)). listing_event (export opts) e"
  unfolding report_def
proof (rule and_then_all)
  show "\<forall>e \<in> set (fst ([Echo (''Found '' @ show_nat (length duplicates) @ '' sets of duplicate files:'') WARNING_COLOR,
         Log_info (''Found '' @ show_nat (length duplicates) @ '' sets of duplicate files'')],
        w, Completed)). listing_event (export opts) e"
    by simp
next
  fix w1
  show "\<forall>e \<in> set (fst (case total_size env (duplicates_dict duplicates) w1 of
            Inl e \<Rightarrow> ([], w1, Raised e)
          | Inr tot \<Rightarrow>
              and_then
                ([Echo (''Total potential space saved: '' @ format_mb env tot @ '' MB'') SUCCESS_COLOR,
                  Log_info (''Total potential space saved: '' @ format_mb env tot @ '' MB'')],
                 w1, Completed)
                (\<lambda>w. and_then (export_report env (export opts) (duplicates_dict duplicates) tot w)
                     (after_export env opts w0 (duplicates_dict duplicates))))). listing_event (export opts) e"
  proof (cases "total_size env (duplicates_dict duplicates) w1")
    case (Inl e)
    then show ?thesis by simp
  next
    case (Inr tot)
    have "\<forall>e \<in> set (fst (and_then
                ([Echo (''Total potential space saved: '' @ format_mb env tot @ '' MB'') SUCCESS_COLOR,
                  Log_info (''Total potential space saved: '' @ format_mb env tot @ '' MB'')],
                 w1, Completed)
                (\<lambda>w. and_then (export_report env (export opts) (duplicates_dict duplicates) tot w)
                     (after_export env opts w0 (duplicates_dict duplicates))))). listing_event (export opts) e"
    proof (rule and_then_all)
      show "\<forall>e \<in> set (fst ([Echo (''Total potential space saved: '' @ format_mb env tot @ '' MB'') SUCCESS_COLOR,
                  Log_info (''Total potential space saved: '' @ format_mb env tot @ '' MB'')],
                 w1, Completed)). listing_event (export opts) e"
        by simp
    next
      fix w2
      show "\<forall>e \<in> set (fst (and_then (export_report env (export opts) (duplicates_dict duplicates) tot w2)
                     (after_export env opts w0 (duplicates_dict duplicates)))). listing_event (export opts) e"
        by (rule and_then_all)
          (simp_all add: export_report_listing after_export_listing [OF assms])
    qed
    with Inr show ?thesis by (simp del: and_then_Completed and_then_Raised)
  qed
qed

lemma after_detection_listing:
  assumes "preview opts"
  shows "\<forall>e \<in> set (fst (after_detection env opts w0 r w)). listing_event (export opts) e"
proof (cases r)
  case (Inl e)
  then show ?thesis by (simp add: after_detection_failed)
next
  case (Inr dups)
  then show ?thesis
    by (cases "dups = []")
      (simp_all add: after_detection_empty after_detection_found report_listing [OF assms])
qed

lemma cli_listing:
  assumes "preview opts" and "\<not> all_flag opts"
  shows "\<forall>e \<in> set (fst (cli env opts w)). listing_event (export opts) e"
proof (cases "make_filter env opts")
  case (Inl e)
  then show ?thesis by (simp add: cli_unparsed)
next
  case (Inr ff)
  obtain r w1 where fd:
    "find_duplicates env (directory opts) ff (label_color opts) (bar_color opts) w = (r, w1)"
    by (cases "find_duplicates env (directory opts) ff (label_color opts) (bar_color opts) w")
  obtain t w2 out where ad: "after_detection env opts w r w1 = (t, w2, out)"
    by (cases "after_detection env opts w r w1")
  have "\<forall>e \<in> set t. listing_event (export opts) e"
    using after_detection_listing [OF assms(1), of env w r w1] ad by simp
  then show ?thesis
    using cli_detects [OF assms(2) Inr fd] ad by simp
qed

lemma after_export_preview_world:
  "preview opts \<Longrightarrow> fst (snd (after_export env opts w0 dd w)) = w"
  by (simp add: after_export_def and_then_split preview_sets_world
      del: and_then_Completed and_then_Raised)

lemma report_preview_world:
  assumes "preview opts" and "export opts = None"
  shows "fst (snd (report env opts w0 dups w)) = w"
  using assms
  by (auto simp: report_def and_then_split export_report_none after_export_preview_world
      simp del: and_then_Completed and_then_Raised split: sum.splits)

lemma after_detection_preview_world:
  assumes "preview opts" and "export opts = None"
  shows "fst (snd (after_detection env opts w0 r w)) = w"
proof (cases r)
  case (Inl e)
  then show ?thesis by (simp add: after_detection_failed)
next
  case (Inr dups)
  then show ?thesis
    by (cases "dups = []")
      (simp_all add: after_detection_empty after_detection_found report_preview_world [OF assms])
qed

lemma cli_preview_world:
  assumes "preview opts" and "\<not> all_flag opts" and "export opts = None"
  shows "fst (snd (cli env opts w)) =
           (case make_filter env opts of
              Inl e \<Rightarrow> w
            | Inr ff \<Rightarrow> snd (find_duplicates env (directory opts) ff (label_color opts) (bar_color opts) w))"
proof (cases "make_filter env opts")
  case (Inl e)
  then show ?thesis by (simp add: cli_unparsed)
next
  case (Inr ff)
  obtain r w1 where fd:
    "find_duplicates env (directory opts) ff (label_color opts) (bar_color opts) w = (r, w1)"
    by (cases "find_duplicates env (directory opts) ff (label_color opts) (bar_color opts) w")
  obtain t w2 out where ad: "after_detection env opts w r w1 = (t, w2, out)"
    by (cases "after_detection env opts w r w1")
  have "w2 = w1"
    using after_detection_preview_world [OF assms(1,3), of env w r w1] ad by simp
  then show ?thesis
    using cli_detects [OF assms(2) Inr fd] ad Inr fd by simp
qed


lemma getsizes_append:
  "getsizes g (a @ b) =
     (case getsizes g a of
        Inl e \<Rightarrow> Inl e
      | Inr x \<Rightarrow> (case getsizes g b of Inl e \<Rightarrow> Inl e | Inr y \<Rightarrow> Inr (x @ y)))"
  by (induction a) (auto split: sum.splits)

lemma getsizes_length: "getsizes g ds = Inr szs \<Longrightarrow> length szs = length ds"
  by (induction ds arbitrary: szs) (auto split: sum.splits)

lemma and_then_completed:
  assumes "snd (snd (and_then r k)) = Completed"
  shows "snd (snd r) = Completed \<and> snd (snd (k (fst (snd r)))) = Completed \<and>
         fst (and_then r k) = fst r @ fst (k (fst (snd r))) \<and>
         fst (snd (and_then r k)) = fst (snd (k (fst (snd r))))"
  using assms by (auto simp: and_then_split split: prod.splits outcome.splits)

lemma preview_duplicates_completed:
  "snd (snd (preview_duplicates env ds w)) = Completed \<Longrightarrow>
   \<exists>szs. getsizes (\<lambda>p. getsize env p w) ds = Inr szs \<and>
         fst (preview_duplicates env ds w) = map (\<lambda>(d, sz). preview_line d sz) (zip ds szs)"
proof (induction ds)
  case Nil
  then show ?case by simp
next
  case (Cons d ds)
  show ?case
  proof (cases "getsize env d w")
    case (Inl e)
    with Cons.prems show ?thesis by simp
  next
    case (Inr sz)
    with Cons.prems have c: "snd (snd (and_then ([preview_line d sz], w, Completed)
          (preview_duplicates env ds))) = Completed"
      by (simp del: and_then_Completed and_then_Raised)
    from and_then_completed [OF c] have
      rest: "snd (snd (preview_duplicates env ds w)) = Completed"
      and tr: "fst (and_then ([preview_line d sz], w, Completed) (preview_duplicates env ds))
                 = [preview_line d sz] @ fst (preview_duplicates env ds w)"
      by simp_all
    from Cons.IH [OF rest] obtain szs where
      "getsizes (\<lambda>p. getsize env p w) ds = Inr szs"
      "fst (preview_duplicates env ds w) = map (\<lambda>(d, sz). preview_line d sz) (zip ds szs)"
      by blast
    with Inr tr have
      "getsizes (\<lambda>p. getsize env p w) (d # ds) = Inr (sz # szs) \<and>
       fst (preview_duplicates env (d # ds) w)
         = map (\<lambda>(d, sz). preview_line d sz) (zip (d # ds) (sz # szs))"
      by (simp del: and_then_Completed and_then_Raised)
    then show ?thesis by blast
  qed
qed

lemma preview_sets_completed:
  "snd (snd (preview_sets env dd w)) = Completed \<Longrightarrow>
   \<exists>szs. getsizes (\<lambda>p. getsize env p w) (concat (map snd dd)) = Inr szs \<and>
         fst (preview_sets env dd w)
           = map (\<lambda>(d, sz). preview_line d sz) (zip (concat (map snd dd)) szs)"
proof (induction dd)
  case Nil
  then show ?case by simp
next
  case (Cons s dd)
  obtain original dl where s: "s = (original, dl)" by (cases s)
  from Cons.prems have c: "snd (snd (and_then (preview_duplicates env dl w) (preview_sets env dd)))
      = Completed"
    by (simp add: s)
  from and_then_completed [OF c] have
    c1: "snd (snd (preview_duplicates env dl w)) = Completed"
    and c2: "snd (snd (preview_sets env dd (fst (snd (preview_duplicates env dl w))))) = Completed"
    and tr: "fst (and_then (preview_duplicates env dl w) (preview_sets env dd))
       = fst (preview_duplicates env dl w)
           @ fst (preview_sets env dd (fst (snd (preview_duplicates env dl w))))"
    by simp_all
  have w: "fst (snd (preview_duplicates env dl w)) = w"
    by (rule preview_duplicates_world)
  from preview_duplicates_completed [OF c1] obtain szs1 where
    g1: "getsizes (\<lambda>p. getsize env p w) dl = Inr szs1"
    and t1: "fst (preview_duplicates env dl w) = map (\<lambda>(d, sz). preview_line d sz) (zip dl szs1)"
    by blast
  from c2 w have "snd (snd (preview_sets env dd w)) = Completed" by simp
  from Cons.IH [OF this] obtain szs2 where
    g2: "getsizes (\<lambda>p. getsize env p w) (concat (map snd dd)) = Inr szs2"
    and t2: "fst (preview_sets env dd w)
               = map (\<lambda>(d, sz). preview_line d sz) (zip (concat (map snd dd)) szs2)"
    by blast
  have len: "length szs1 = length dl"
    using g1 by (rule getsizes_length)
  have "getsizes (\<lambda>p. getsize env p w) (concat (map snd (s # dd))) = Inr (szs1 @ szs2)"
    using g1 g2 by (simp add: s getsizes_append)
  moreover have "fst (preview_sets env (s # dd) w)
      = map (\<lambda>(d, sz). preview_line d sz) (zip (concat (map snd (s # dd))) (szs1 @ szs2))"
    using tr t1 t2 w len by (simp add: s)
  ultimately show ?case by blast
qed

lemma after_export_preview_completed:
  assumes "preview opts" and "snd (snd (after_export env opts w0 dd w)) = Completed"
  shows "\<exists>szs. getsizes (\<lambda>p. getsize env p w) (concat (map snd dd)) = Inr szs \<and>
           fst (after_export env opts w0 dd w)
             = Echo ''Preview mode active - No files will be deleted.'' SUCCESS_COLOR
                 # map (\<lambda>(d, sz). preview_line d sz) (zip (concat (map snd dd)) szs)"
proof -
  from assms have c: "snd (snd (and_then
      ([Echo ''Preview mode active - No files will be deleted.'' SUCCESS_COLOR], w, Completed)
      (preview_sets env dd))) = Completed"
    by (simp add: after_export_def del: and_then_Completed and_then_Raised)
  from and_then_completed [OF c] have c2: "snd (snd (preview_sets env dd w)) = Completed"
    and tr: "fst (and_then
      ([Echo ''Preview mode active - No files will be deleted.'' SUCCESS_COLOR], w, Completed)
      (preview_sets env dd))
       = [Echo ''Preview mode active - No files will be deleted.'' SUCCESS_COLOR]
           @ fst (preview_sets env dd w)"
    by simp_all
  from preview_sets_completed [OF c2] tr assms(1) show ?thesis
    by (auto simp: after_export_def simp del: and_then_Completed and_then_Raised)
qed

lemma report_preview_completed:
  assumes "preview opts" and "snd (snd (report env opts w0 dups w)) = Completed"
  shows "\<exists>pre szs.
           getsizes (\<lambda>p. getsize env p (fst (snd (report env opts w0 dups w))))
             (concat (map snd (duplicates_dict dups))) = Inr szs \<and>
           fst (report env opts w0 dups w)
             = pre @ Echo ''Preview mode active - No files will be deleted.'' SUCCESS_COLOR
                 # map (\<lambda>(d, sz). preview_line d sz) (zip (concat (map snd (duplicates_dict dups))) szs)"
proof -
  let ?dd = "duplicates_dict dups"
  let ?found = "[Echo (''Found '' @ show_nat (length dups) @ '' sets of duplicate files:'') WARNING_COLOR,
         Log_info (''Found '' @ show_nat (length dups) @ '' sets of duplicate files'')]"
  obtain tot where tot: "total_size env ?dd w = Inr tot"
    using assms(2)
    by (cases "total_size env ?dd w")
      (simp_all add: report_def and_then_split del: and_then_Completed and_then_Raised)
  let ?saved = "[Echo (''Total potential space saved: '' @ format_mb env tot @ '' MB'') SUCCESS_COLOR,
                  Log_info (''Total potential space saved: '' @ format_mb env tot @ '' MB'')]"
  have rep: "report env opts w0 dups w =
      and_then (?found @ ?saved, w, Completed)
        (\<lambda>w. and_then (export_report env (export opts) ?dd tot w) (after_export env opts w0 ?dd))"
    using tot
    by (simp add: report_def and_then_split del: and_then_Completed and_then_Raised
        split: prod.splits outcome.splits)
  from assms(2) rep have c: "snd (snd (and_then (?found @ ?saved, w, Completed)
        (\<lambda>w. and_then (export_report env (export opts) ?dd tot w) (after_export env opts w0 ?dd))))
      = Completed"
    by simp
  from and_then_completed [OF c] have
    c2: "snd (snd (and_then (export_report env (export opts) ?dd tot w) (after_export env opts w0 ?dd)))
           = Completed"
    and tr: "fst (report env opts w0 dups w) = (?found @ ?saved)
           @ fst (and_then (export_report env (export opts) ?dd tot w) (after_export env opts w0 ?dd))"
    and wd: "fst (snd (report env opts w0 dups w))
           = fst (snd (and_then (export_report env (export opts) ?dd tot w) (after_export env opts w0 ?dd)))"
    unfolding rep by simp_all
  let ?w2 = "fst (snd (export_report env (export opts) ?dd tot w))"
  from and_then_completed [OF c2] have
    c3: "snd (snd (after_export env opts w0 ?dd ?w2)) = Completed"
    and tr2: "fst (and_then (export_report env (export opts) ?dd tot w) (after_export env opts w0 ?dd))
           = fst (export_report env (export opts) ?dd tot w) @ fst (after_export env opts w0 ?dd ?w2)"
    and wd2: "fst (snd (and_then (export_report env (export opts) ?dd tot w) (after_export env opts w0 ?dd)))
           = fst (snd (after_export env opts w0 ?dd ?w2))"
    by simp_all
  have wf: "fst (snd (report env opts w0 dups w)) = ?w2"
    using wd wd2 after_export_preview_world [OF assms(1), of env w0 ?dd ?w2] by simp
  from after_export_preview_completed [OF assms(1) c3] obtain szs where
    g: "getsizes (\<lambda>p. getsize env p ?w2) (concat (map snd ?dd)) = Inr szs"
    and t3: "fst (after_export env opts w0 ?dd ?w2)
             = Echo ''Preview mode active - No files will be deleted.'' SUCCESS_COLOR
                 # map (\<lambda>(d, sz). preview_line d sz) (zip (concat (map snd ?dd)) szs)"
    by blast
  have "fst (report env opts w0 dups w)
      = ((?found @ ?saved) @ fst (export_report env (export opts) ?dd tot w))
          @ Echo ''Preview mode active - No files will be deleted.'' SUCCESS_COLOR
              # map (\<lambda>(d, sz). preview_line d sz) (zip (concat (map snd ?dd)) szs)"
    using tr tr2 t3 by simp
  with g wf show ?thesis by metis
qed


lemma cli_preview_completed:
  assumes pv: "preview opts" and na: "\<not> all_flag opts"
    and mf: "make_filter env opts = Inr ff"
    and fd: "find_duplicates env (directory opts) ff (label_color opts) (bar_color opts) w = (Inr dups, w1)"
    and ne: "dups \<noteq> []"
    and fin: "snd (snd (cli env opts w)) = Completed"
  shows "\<exists>pre szs.
           getsizes (\<lambda>p. getsize env p (fst (snd (cli env opts w))))
             (concat (map snd (duplicates_dict dups))) = Inr szs \<and>
           fst (cli env opts w)
             = pre @ Echo ''Preview mode active - No files will be deleted.'' SUCCESS_COLOR
                 # map (\<lambda>(d, sz). preview_line d sz) (zip (concat (map snd (duplicates_dict dups))) szs)"
proof -
  obtain t w2 out where rp: "report env opts w dups w1 = (t, w2, out)"
    by (cases "report env opts w dups w1")
  have run: "cli env opts w =
      ([Log_info (''Searching for duplicates in directory: '' @ directory opts),
        Call_find_duplicates (directory opts) ff (label_color opts) (bar_color opts)] @ t, w2, out)"
    using cli_detects [OF na mf fd] ne rp by (simp add: after_detection_found)
  with fin have "snd (snd (report env opts w dups w1)) = Completed"
    using rp by simp
  from report_preview_completed [OF pv this] obtain pre szs where
    g: "getsizes (\<lambda>p. getsize env p (fst (snd (report env opts w dups w1))))
          (concat (map snd (duplicates_dict dups))) = Inr szs"
    and tr: "fst (report env opts w dups w1)
          = pre @ Echo ''Preview mode active - No files will be deleted.'' SUCCESS_COLOR
              # map (\<lambda>(d, sz). preview_line d sz) (zip (concat (map snd (duplicates_dict dups))) szs)"
    by blast
  have "fst (cli env opts w)
      = ([Log_info (''Searching for duplicates in directory: '' @ directory opts),
          Call_find_duplicates (directory opts) ff (label_color opts) (bar_color opts)] @ pre)
          @ Echo ''Preview mode active - No files will be deleted.'' SUCCESS_COLOR
              # map (\<lambda>(d, sz). preview_line d sz) (zip (concat (map snd (duplicates_dict dups))) szs)"
    using run rp tr by simp
  moreover have "fst (snd (cli env opts w)) = fst (snd (report env opts w dups w1))"
    using run rp by simp
  ultimately have
    "getsizes (\<lambda>p. getsize env p (fst (snd (cli env opts w))))
       (concat (map snd (duplicates_dict dups))) = Inr szs \<and>
     fst (cli env opts w)
      = ([Log_info (''Searching for duplicates in directory: '' @ directory opts),
          Call_find_duplicates (directory opts) ff (label_color opts) (bar_color opts)] @ pre)
          @ Echo ''Preview mode active - No files will be deleted.'' SUCCESS_COLOR
              # map (\<lambda>(d, sz). preview_line d sz) (zip (concat (map snd (duplicates_dict dups))) szs)"
    using g by simp
  then show ?thesis
    by (intro exI)
qed




section \<open>The sets of the engine\<close>

lemma under_trans: "under p q \<Longrightarrow> under q r \<Longrightarrow> under p r"
  by (auto simp: under_def)

lemma under_child: "under (p @ ''/'' @ a) q \<Longrightarrow> under p q"
  by (auto simp: under_def)

lemma insort_key_map_pair:
  "insort_key fst (k x, F x) (map (\<lambda>n. (k n, F n)) ys) = map (\<lambda>n. (k n, F n)) (insort_key k x ys)"
  by (induction ys) auto

lemma sort_key_map_pair:
  "sort_key fst (map (\<lambda>n. (k n, F n)) xs) = map (\<lambda>n. (k n, F n)) (sort_key k xs)"
  by (induction xs) (auto simp: insort_key_map_pair)

lemma scan_Dir:
  "scan pf f p (Dir name True entries) =
     (concat (map (\<lambda>n. fst (scan pf f (p @ ''/'' @ node_name n) n)) (sort_key node_name entries)),
      concat (map (\<lambda>n. snd (scan pf f (p @ ''/'' @ node_name n) n)) (sort_key node_name entries)))"
  by (simp add: sort_key_map_pair Let_def comp_def)

lemma scan_under:
  "c \<in> set (snd (scan pf f p n)) \<Longrightarrow> under p (cpath (fst c))"
proof (induction pf f p n arbitrary: c rule: scan.induct)
  case (1 pf f p name sz content)
  then show ?case by (auto simp: under_def split: if_splits)
next
  case (2 pf f p name)
  then show ?case by simp
next
  case (3 pf f p name readable entries)
  show ?case
  proof (cases readable)
    case False
    with 3 show ?thesis by simp
  next
    case True
    from "3.prems" have "c \<in> set (snd (scan pf f p (Dir name True entries)))"
      using True by simp
    then obtain n where n: "n \<in> set entries"
      and c: "c \<in> set (snd (scan pf f (p @ ''/'' @ node_name n) n))"
      unfolding scan_Dir by auto
    from "3.IH" [OF _ n c] True have "under (p @ ''/'' @ node_name n) (cpath (fst c))"
      by simp
    then show ?thesis by (rule under_child)
  qed
qed

lemma siblings_apart:
  assumes "under (p @ ''/'' @ a) q" and "under (p @ ''/'' @ b) q"
    and "CHR ''/'' \<notin> set a" and "CHR ''/'' \<notin> set b"
  shows "a = b"
proof -
  from assms(1) obtain x where x: "q = p @ ''/'' @ a @ x" "x = [] \<or> (\<exists>r. x = ''/'' @ r)"
    by (auto simp: under_def)
  from assms(2) obtain y where y: "q = p @ ''/'' @ b @ y" "y = [] \<or> (\<exists>r. y = ''/'' @ r)"
    by (auto simp: under_def)
  from x(1) y(1) have eq: "a @ x = b @ y" by simp
  have pa: "\<And>c. c \<in> set a \<Longrightarrow> c \<noteq> CHR ''/''"
    using assms(3) by auto
  have pb: "\<And>c. c \<in> set b \<Longrightarrow> c \<noteq> CHR ''/''"
    using assms(4) by auto
  have "takeWhile (\<lambda>c. c \<noteq> CHR ''/'') (a @ x) = a"
    using x(2) by (auto simp: takeWhile_append2 [of a, OF pa])
  moreover have "takeWhile (\<lambda>c. c \<noteq> CHR ''/'') (b @ y) = b"
    using y(2) by (auto simp: takeWhile_append2 [of b, OF pb])
  ultimately show ?thesis using eq by simp
qed

lemma distinct_concat_map:
  assumes "distinct ns" and "\<And>n. n \<in> set ns \<Longrightarrow> distinct (g n)"
    and "\<And>m n. m \<in> set ns \<Longrightarrow> n \<in> set ns \<Longrightarrow> m \<noteq> n \<Longrightarrow> set (g m) \<inter> set (g n) = {}"
  shows "distinct (concat (map g ns))"
  using assms
proof (induction ns)
  case Nil
  then show ?case by simp
next
  case (Cons n ns)
  have "distinct (concat (map g ns))"
    using Cons by simp
  moreover have "distinct (g n)" using Cons.prems(2) by simp
  moreover have "set (g n) \<inter> set (concat (map g ns)) = {}"
    using Cons.prems(1,3) by fastforce
  ultimately show ?case by simp
qed

lemma scan_distinct:
  "wf_node n \<Longrightarrow> distinct (map (\<lambda>c. cpath (fst c)) (snd (scan pf f p n)))"
proof (induction pf f p n rule: scan.induct)
  case (1 pf f p name sz content)
  then show ?case by simp
next
  case (2 pf f p name)
  then show ?case by simp
next
  case (3 pf f p name readable entries)
  show ?case
  proof (cases readable)
    case False
    then show ?thesis by simp
  next
    case True
    let ?g = "\<lambda>n. map (\<lambda>c. cpath (fst c)) (snd (scan pf f (p @ ''/'' @ node_name n) n))"
    have names: "distinct (map node_name entries)"
      and wf: "\<And>n. n \<in> set entries \<Longrightarrow> CHR ''/'' \<notin> set (node_name n) \<and> wf_node n"
      using "3.prems" by simp_all
    have d: "distinct (sort_key node_name entries)"
      using names by (simp add: distinct_map)
    have each: "\<And>n. n \<in> set (sort_key node_name entries) \<Longrightarrow> distinct (?g n)"
      using "3.IH" True wf by simp
    have apart: "\<And>m n. m \<in> set (sort_key node_name entries) \<Longrightarrow> n \<in> set (sort_key node_name entries)
        \<Longrightarrow> m \<noteq> n \<Longrightarrow> set (?g m) \<inter> set (?g n) = {}"
    proof -
      fix m n assume m: "m \<in> set (sort_key node_name entries)"
        and n: "n \<in> set (sort_key node_name entries)" and mn: "m \<noteq> n"
      have nm: "node_name m \<noteq> node_name n"
        using names m n mn by (auto simp: distinct_map inj_on_def)
      show "set (?g m) \<inter> set (?g n) = {}"
      proof (rule ccontr)
        assume "set (?g m) \<inter> set (?g n) \<noteq> {}"
        then obtain q where "q \<in> set (?g m)" "q \<in> set (?g n)" by blast
        then have "under (p @ ''/'' @ node_name m) q" "under (p @ ''/'' @ node_name n) q"
          using scan_under by fastforce+
        then have "node_name m = node_name n"
          using siblings_apart wf m n by simp
        with nm show False by simp
      qed
    qed
    have "distinct (concat (map ?g (sort_key node_name entries)))"
      by (rule distinct_concat_map [OF d each apart])
    moreover have "scan pf f p (Dir name readable entries) = scan pf f p (Dir name True entries)"
      using True by simp
    ultimately show ?thesis
      by (simp only: scan_Dir snd_conv map_concat list.map_comp comp_def)
  qed
qed


lemma group_by_snoc:
  "group_by key val (xs @ [x]) = dict_append (group_by key val xs) (key x) (val x)"
  by (simp add: group_by_def)

lemma dict_append_keys:
  "map fst (dict_append d k v) = (if k \<in> fst ` set d then map fst d else map fst d @ [k])"
  by (induction d) (auto split: if_splits)

lemma dict_append_distinct:
  "distinct (map fst d) \<Longrightarrow> distinct (map fst (dict_append d k v))"
  by (simp add: dict_append_keys)

lemma dict_append_lookup:
  "map_of (dict_append d k v) k' =
     (if k' = k then Some (case map_of d k of None \<Rightarrow> [v] | Some vs \<Rightarrow> vs @ [v])
      else map_of d k')"
  by (induction d) auto

lemma group_by_distinct: "distinct (map fst (group_by key val xs))"
proof (induction xs rule: rev_induct)
  case Nil
  then show ?case by (simp add: group_by_def)
next
  case (snoc x xs)
  then show ?case by (simp add: group_by_snoc dict_append_distinct)
qed

lemma group_by_lookup:
  "map_of (group_by key val xs) k =
     (if k \<in> key ` set xs then Some (map val (filter (\<lambda>x. key x = k) xs)) else None)"
proof (induction xs arbitrary: k rule: rev_induct)
  case Nil
  then show ?case by (simp add: group_by_def)
next
  case (snoc x xs)
  show ?case
  proof (cases "k = key x")
    case True
    show ?thesis
    proof (cases "key x \<in> key ` set xs")
      case False
      then have "filter (\<lambda>y. key y = key x) xs = []"
        by (auto simp: filter_empty_conv image_iff)
      with True False show ?thesis
        by (simp add: group_by_snoc dict_append_lookup snoc.IH)
    next
      case t: True
      with True show ?thesis
        by (simp add: group_by_snoc dict_append_lookup snoc.IH)
    qed
  next
    case False
    then show ?thesis
      by (auto simp: group_by_snoc dict_append_lookup snoc.IH)
  qed
qed

lemma group_by_member:
  assumes "(k, vs) \<in> set (group_by key val xs)"
  shows "vs = map val (filter (\<lambda>x. key x = k) xs) \<and> k \<in> key ` set xs"
proof -
  have "map_of (group_by key val xs) k = Some vs"
    using assms group_by_distinct [of key val xs] by simp
  then show ?thesis
    unfolding group_by_lookup by (auto split: if_splits)
qed

lemma duplicates_dict_group_by: "duplicates_dict duplicates = group_by fst snd duplicates"
  by (simp add: duplicates_dict_def group_by_def case_prod_unfold)

lemma size_buckets_group_by: "size_buckets cands = group_by (\<lambda>c. csize (fst c)) (\<lambda>c. c) cands"
  by (simp add: size_buckets_def group_by_def)

lemma digest_groups_group_by:
  "digest_groups results bucket
     = map snd (group_by fst snd (List.map_filter (hashed_ok results) bucket))"
  by (simp add: digest_groups_def group_by_def case_prod_unfold)

lemma duplicates_dict_member:
  assumes "(original, dl) \<in> set (duplicates_dict duplicates)"
  shows "dl = map snd (filter (\<lambda>x. fst x = original) duplicates)"
  using group_by_member [of original dl fst snd duplicates] assms
  by (simp add: duplicates_dict_group_by)

lemma bucket_paths_distinct:
  assumes "distinct (map (\<lambda>c. cpath (fst c)) cands)" and "b \<in> set (hashing_workload cands)"
  shows "distinct (map (\<lambda>c. cpath (fst c)) b)"
proof -
  from assms(2) obtain k where "(k, b) \<in> set (size_buckets cands)"
    by (auto simp: hashing_workload_def)
  then have "b = filter (\<lambda>c. csize (fst c) = k) cands"
    using group_by_member [of k b "\<lambda>c. csize (fst c)" "\<lambda>c. c" cands]
    by (simp add: size_buckets_group_by)
  then show ?thesis
    using assms(1) by (simp add: distinct_map_filter)
qed

lemma hashed_ok_path: "hashed_ok results c = Some (dg, p) \<Longrightarrow> p = cpath (fst c)"
  by (auto simp: hashed_ok_def split: option.splits)

lemma set_map_filter: "set (List.map_filter f xs) = {y. \<exists>x \<in> set xs. f x = Some y}"
  by (induction xs) (auto simp: List.map_filter_simps split: option.splits)

lemma map_filter_paths_distinct:
  "distinct (map (\<lambda>c. cpath (fst c)) b) \<Longrightarrow>
   distinct (map snd (List.map_filter (hashed_ok results) b))"
proof (induction b)
  case Nil
  then show ?case by (simp add: List.map_filter_simps)
next
  case (Cons c b)
  have sub: "snd ` set (List.map_filter (hashed_ok results) b) \<subseteq> (\<lambda>c. cpath (fst c)) ` set b"
  proof
    fix p assume "p \<in> snd ` set (List.map_filter (hashed_ok results) b)"
    then obtain dg where "(dg, p) \<in> set (List.map_filter (hashed_ok results) b)"
      by auto
    then obtain c' where "c' \<in> set b" "hashed_ok results c' = Some (dg, p)"
      by (auto simp: set_map_filter)
    then show "p \<in> (\<lambda>c. cpath (fst c)) ` set b"
      using hashed_ok_path by blast
  qed
  show ?case
  proof (cases "hashed_ok results c")
    case None
    with Cons show ?thesis by (simp add: List.map_filter_simps)
  next
    case (Some a)
    obtain dg p where a: "a = (dg, p)" by (cases a)
    with Some have "p = cpath (fst c)" using hashed_ok_path by blast
    with Cons.prems sub have "p \<notin> snd ` set (List.map_filter (hashed_ok results) b)"
      by auto
    with Cons Some a show ?thesis by (simp add: List.map_filter_simps)
  qed
qed

lemma digest_group_distinct:
  assumes "distinct (map (\<lambda>c. cpath (fst c)) b)" and "g \<in> set (digest_groups results b)"
  shows "distinct g"
proof -
  from assms(2) obtain k where "(k, g) \<in> set (group_by fst snd (List.map_filter (hashed_ok results) b))"
    by (auto simp: digest_groups_group_by)
  then have "g = map snd (filter (\<lambda>x. fst x = k) (List.map_filter (hashed_ok results) b))"
    using group_by_member by fastforce
  then show ?thesis
    using map_filter_paths_distinct [OF assms(1), of results] by (simp add: distinct_map_filter)
qed

lemma set_of_group_member:
  "s \<in> set (set_of_group g) \<Longrightarrow> g = the_original s # the_duplicates s \<and> the_duplicates s \<noteq> []"
  by (cases g rule: set_of_group.cases) auto

lemma group_duplicates_member:
  assumes "s \<in> set (group_duplicates cands buckets results)"
  shows "\<exists>b \<in> set buckets. the_original s # the_duplicates s \<in> set (digest_groups results b)
           \<and> the_duplicates s \<noteq> []"
proof -
  from assms obtain b g where "b \<in> set buckets" "g \<in> set (digest_groups results b)"
    "s \<in> set (set_of_group g)"
    by (auto simp: group_duplicates_def)
  then show ?thesis
    using set_of_group_member by fastforce
qed

lemma group_duplicates_original_apart:
  assumes "distinct (map (\<lambda>c. cpath (fst c)) cands)"
    and "s \<in> set (group_duplicates cands (hashing_workload cands) results)"
  shows "the_original s \<notin> set (the_duplicates s)"
proof -
  from group_duplicates_member [OF assms(2)] obtain b where
    b: "b \<in> set (hashing_workload cands)"
    and g: "the_original s # the_duplicates s \<in> set (digest_groups results b)"
    by blast
  have "distinct (the_original s # the_duplicates s)"
    using digest_group_distinct [OF bucket_paths_distinct [OF assms(1) b] g] .
  then show ?thesis by simp
qed


lemma engine_Inr:
  assumes "engine pf root rd f wc = Inr (sets, warnings)"
  shows "\<exists>name readable entries.
           root = Some (Dir name readable entries) \<and> can_create_pool pf wc \<and>
           sets = group_duplicates (snd (scan pf f rd (Dir name readable entries)))
                    (hashing_workload (snd (scan pf f rd (Dir name readable entries))))
                    (parallel_hash pf wc
                       (concat (hashing_workload (snd (scan pf f rd (Dir name readable entries)))))) \<and>
           warnings = fst (scan pf f rd (Dir name readable entries))
             @ map (\<lambda>r. (hpath r, HashFailure))
                 (filter (\<lambda>r. herror r \<noteq> None)
                    (parallel_hash pf wc
                       (concat (hashing_workload (snd (scan pf f rd (Dir name readable entries)))))))"
proof (cases root)
  case None
  with assms show ?thesis by (simp add: engine_def)
next
  case (Some n)
  show ?thesis
  proof (cases n)
    case (File name sz content)
    with Some assms show ?thesis by (simp add: engine_def)
  next
    case (Dir_link name)
    with Some assms show ?thesis by (simp add: engine_def)
  next
    case (Dir name readable entries)
    with Some assms show ?thesis
      by (simp add: engine_def Let_def case_prod_unfold split: if_splits del: scan.simps)
  qed
qed

lemma report_pairs_member:
  "(a, b) \<in> set (report_pairs sets) \<Longrightarrow>
   \<exists>s \<in> set sets. a = the_original s \<and> b \<in> set (the_duplicates s)"
  by (auto simp: report_pairs_def)

text \<open>
  C8. In every set of the report of the engine on a tree as a file system has it, the
  original is not among the set's duplicates, and so it is in the mapping from original
  to list of duplicates that \<open>cli\<close> builds from the pairs of that report. For any list of
  pairs whatever, an original is in its own list of the mapping of lines 67 to 69 only if
  the list holds a pair of that original with itself.
\<close>

theorem original_not_among_duplicates:
  "(\<forall>n sets warnings.
      root = Some n \<and> wf_node n \<and> engine pf root rd f wc = Inr (sets, warnings) \<longrightarrow>
      (\<forall>s \<in> set sets. the_original s \<notin> set (the_duplicates s)) \<and>
      (\<forall>original dl. (original, dl) \<in> set (duplicates_dict (report_pairs sets)) \<longrightarrow>
         original \<notin> set dl)) \<and>
   (\<forall>duplicates original dl.
      (original, dl) \<in> set (duplicates_dict duplicates) \<and> original \<in> set dl \<longrightarrow>
      (original, original) \<in> set duplicates)"
proof (rule conjI)
  have regroup: "(original, original) \<in> set duplicates"
    if "(original, dl) \<in> set (duplicates_dict duplicates)" and "original \<in> set dl"
    for duplicates :: "(path \<times> path) list" and original dl
  proof -
    from duplicates_dict_member [OF that(1)] that(2)
    obtain x where x: "x \<in> set duplicates" and "fst x = original" "snd x = original"
      by auto
    then have "x = (original, original)"
      by (simp add: prod_eq_iff)
    with x show ?thesis by simp
  qed
  then show "\<forall>duplicates original dl.
      (original, dl) \<in> set (duplicates_dict duplicates) \<and> original \<in> set dl \<longrightarrow>
      (original, original) \<in> set duplicates"
    by blast
  show "\<forall>n sets warnings.
      root = Some n \<and> wf_node n \<and> engine pf root rd f wc = Inr (sets, warnings) \<longrightarrow>
      (\<forall>s \<in> set sets. the_original s \<notin> set (the_duplicates s)) \<and>
      (\<forall>original dl. (original, dl) \<in> set (duplicates_dict (report_pairs sets)) \<longrightarrow>
         original \<notin> set dl)"
  proof (intro allI impI)
    fix n sets warnings
    assume h: "root = Some n \<and> wf_node n \<and> engine pf root rd f wc = Inr (sets, warnings)"
    then have wf: "wf_node n" and rt: "root = Some n"
      and en: "engine pf root rd f wc = Inr (sets, warnings)"
      by blast+
    from engine_Inr [OF en] rt have
      sets: "sets = group_duplicates (snd (scan pf f rd n)) (hashing_workload (snd (scan pf f rd n)))
                      (parallel_hash pf wc (concat (hashing_workload (snd (scan pf f rd n)))))"
      by auto
    have apart: "the_original s \<notin> set (the_duplicates s)" if "s \<in> set sets" for s
      using that group_duplicates_original_apart [OF scan_distinct [OF wf, of pf f rd]]
      unfolding sets by blast
    have "original \<notin> set dl"
      if "(original, dl) \<in> set (duplicates_dict (report_pairs sets))" for original dl
    proof
      assume "original \<in> set dl"
      with regroup [OF that] have "(original, original) \<in> set (report_pairs sets)" .
      then obtain s where "s \<in> set sets" "original = the_original s"
        "original \<in> set (the_duplicates s)"
        using report_pairs_member by blast
      with apart show False by blast
    qed
    with apart show "(\<forall>s \<in> set sets. the_original s \<notin> set (the_duplicates s)) \<and>
      (\<forall>original dl. (original, dl) \<in> set (duplicates_dict (report_pairs sets)) \<longrightarrow>
         original \<notin> set dl)"
      by blast
  qed
qed


lemmas engine_defs = matches_def engine_def hashing_workload_def size_buckets_def
  parallel_hash_def hash_task_def group_duplicates_def digest_groups_def hashed_ok_def
  scan_position_def List.map_filter_simps Let_def

lemma sample_engine:
  "engine sample_platform (Some sample_tree) ''dir'' sample_filter 4 =
     Inr ([\<lparr>the_original = ''dir/a.txt'', the_duplicates = [''dir/b.txt'']\<rparr>], [])"
  by (simp add: sample_platform_def sample_tree_def sample_filter_def engine_defs)

lemma sample_wf: "wf_node sample_tree"
  by (simp add: sample_tree_def)

theorem original_not_among_duplicates_witness:
  "wf_node sample_tree \<and>
   engine sample_platform (Some sample_tree) ''dir'' sample_filter 4 =
     Inr ([\<lparr>the_original = ''dir/a.txt'', the_duplicates = [''dir/b.txt'']\<rparr>], []) \<and>
   the_original \<lparr>the_original = ''dir/a.txt'', the_duplicates = [''dir/b.txt'']\<rparr>
     \<notin> set (the_duplicates \<lparr>the_original = ''dir/a.txt'', the_duplicates = [''dir/b.txt'']\<rparr>)"
proof -
  from original_not_among_duplicates [of "Some sample_tree" sample_platform "''dir''" sample_filter 4]
  have "\<forall>n sets warnings.
      Some sample_tree = Some n \<and> wf_node n \<and>
      engine sample_platform (Some sample_tree) ''dir'' sample_filter 4 = Inr (sets, warnings) \<longrightarrow>
      (\<forall>s \<in> set sets. the_original s \<notin> set (the_duplicates s))"
    by blast
  with sample_wf sample_engine
  have "\<forall>s \<in> set [\<lparr>the_original = ''dir/a.txt'', the_duplicates = [''dir/b.txt'']\<rparr>].
          the_original s \<notin> set (the_duplicates s)"
    by blast
  then show ?thesis
    using sample_wf sample_engine by simp
qed

end
